theory Spec2Isabelle
  imports Main "HOL-Library.Word"
begin

unbundle bit_operations_syntax

section \<open>wmx2obj: world map segments to Wavefront OBJ\<close>

text \<open>
  A shallow embedding of \<^verbatim>\<open>wmx2obj.c\<close>. The C types are those of an LP64 platform:
  \<^verbatim>\<open>unsigned char\<close> is \<open>8 word\<close>, \<^verbatim>\<open>unsigned int\<close> (and \<^verbatim>\<open>int\<close>) is \<open>32 word\<close>,
  \<^verbatim>\<open>unsigned long int\<close> is \<open>64 word\<close>; arithmetic wraps around as the words do.
  A pointer into the segment buffer is the byte offset from the start of the buffer.
\<close>

type_synonym byte = "8 word"
type_synonym uint = "32 word"
type_synonym ulong = "64 word"

subsection \<open>Constants (lines 12--27)\<close>

definition SEGMENT_SIZE :: ulong where "SEGMENT_SIZE = 0x9000"
definition SEGMENT_MIN :: uint where "SEGMENT_MIN = 0"
definition SEGMENT_MAX :: uint where "SEGMENT_MAX = 834"
definition SEGMENTS_PER_ROW :: uint where "SEGMENTS_PER_ROW = 32"
definition SEGMENT_BOUNDS :: ulong where "SEGMENT_BOUNDS = 8192"
definition BLOCKS_PER_SEGMENT :: "'a::len word" where "BLOCKS_PER_SEGMENT = 16"
definition GROUP_ID_SIZE :: uint where "GROUP_ID_SIZE = 4"
definition BLOCK_OFFSET_SIZE :: uint where "BLOCK_OFFSET_SIZE = 4"
definition BLOCK_SIZE :: ulong where "BLOCK_SIZE = SEGMENT_SIZE div BLOCKS_PER_SEGMENT"
definition BLOCK_OFFSET_MAX :: ulong where "BLOCK_OFFSET_MAX = SEGMENT_SIZE - BLOCK_SIZE"
definition BLOCK_HEADER_SIZE :: ulong where "BLOCK_HEADER_SIZE = 4"
definition BLOCKS_PER_ROW :: uint where "BLOCKS_PER_ROW = 4"
definition BLOCK_BOUNDS :: ulong where "BLOCK_BOUNDS = SEGMENT_BOUNDS div 4"
definition POLYGON_SIZE :: ulong where "POLYGON_SIZE = 16"
definition VERTEX_SIZE :: ulong where "VERTEX_SIZE = 8"

subsection \<open>Data\<close>

text \<open>The struct of lines 29--31.\<close>

record VertexIndexData =
  vert_max :: ulong
  prev_vert_max :: ulong

text \<open>
  The ways a conversion fails. The C functions return 0 after printing a diagnostic to
  \<^verbatim>\<open>stderr\<close>; the model returns \<open>Some e\<close> for 0 and \<open>None\<close> for 1, where \<open>e\<close> names
  the diagnostic: \<open>InvalidBlockOffset\<close> is "Block offset too large", \<open>ReadError\<close> is
  "Read failed", \<open>SeekError\<close> is "Seek failed", \<open>OutOfMemory\<close> is "Out of memory",
  \<open>WriteError\<close> is the silent 0 of \<^verbatim>\<open>!ferror(out)\<close>. The C code reads the buffer without
  checking the index; a read at or past the end of the buffer has no defined behaviour,
  and the model stops there with \<open>BufferOverrun i\<close>, \<open>i\<close> the offending byte index.
\<close>

datatype error =
  SeekError | OutOfMemory | ReadError | InvalidBlockOffset | WriteError | BufferOverrun nat

text \<open>
  The output file, one entry per line written. A face line carries the vertex indices
  printed with \<^verbatim>\<open>%lu\<close>; a vertex line carries, for each coordinate, the integer that the C
  code multiplies by \<^verbatim>\<open>0.001L\<close> and prints with \<^verbatim>\<open>%.3Lf\<close>, that is the coordinate in
  thousandths.
\<close>

datatype obj_line = Face "nat list" | Vertex nat nat nat

text \<open>
  The output stream: the lines written, the number of further lines the sink accepts
  before a write fails, and the stream's sticky error indicator (what \<^verbatim>\<open>ferror\<close> reads).
  Each of \<^verbatim>\<open>convert_polygon\<close> and \<^verbatim>\<open>convert_vertex\<close> tests the indicator once, after
  writing its line, so failures are modelled per line.
\<close>

record ostream =
  olines :: "obj_line list"
  oroom :: nat
  oerr :: bool

definition fput_line :: "obj_line \<Rightarrow> ostream \<Rightarrow> ostream" where
  "fput_line l f =
     (if oroom f = 0 then f\<lparr>oerr := True\<rparr>
      else f\<lparr>olines := olines f @ [l], oroom := oroom f - 1\<rparr>)"

text \<open>The input stream: the file's bytes, the read position, whether it can seek.\<close>

record istream =
  content :: "byte list"
  fpos :: nat
  seekable :: bool

definition fseek_set :: "istream \<Rightarrow> ulong \<Rightarrow> istream option" where
  "fseek_set f off =
     (if seekable f \<and> 0 \<le> sint off then Some (f\<lparr>fpos := nat (sint off)\<rparr>) else None)"

definition fread_segment :: "istream \<Rightarrow> (byte list \<times> istream) option" where
  "fread_segment f =
     (if fpos f + unat SEGMENT_SIZE \<le> length (content f)
      then Some (take (unat SEGMENT_SIZE) (drop (fpos f) (content f)),
                 f\<lparr>fpos := fpos f + unat SEGMENT_SIZE\<rparr>)
      else None)"

text \<open>
  The state a conversion threads through its calls: the vertex counters, the output
  stream, and a history variable \<open>hist\<close> that is no data of the program: it records every
  value stored into the counters, oldest first, so that a property of all the
  intermediate values of a run can be stated. No function reads it.
\<close>

record conv_state =
  idx :: VertexIndexData
  out :: ostream
  hist :: "VertexIndexData list"

definition store_idx :: "VertexIndexData \<Rightarrow> conv_state \<Rightarrow> conv_state" where
  "store_idx v s = s\<lparr>idx := v, hist := hist s @ [v]\<rparr>"

definition write_line :: "obj_line \<Rightarrow> conv_state \<Rightarrow> conv_state" where
  "write_line l s = s\<lparr>out := fput_line l (out s)\<rparr>"

definition ferror_status :: "conv_state \<Rightarrow> error option" where
  "ferror_status s = (if oerr (out s) then Some WriteError else None)"

text \<open>Reading \<^verbatim>\<open>buf[p]\<close>.\<close>

definition rd :: "byte list \<Rightarrow> ulong \<Rightarrow> error + byte" where
  "rd buf p = (if unat p < length buf then Inr (buf ! unat p) else Inl (BufferOverrun (unat p)))"

subsection \<open>Vertices (lines 81--103)\<close>

definition limit_within_bounds :: "uint \<Rightarrow> uint" where
  "limit_within_bounds val =
     (if (ucast val :: ulong) \<le> BLOCK_BOUNDS then val else (NOT val + 1) AND 0xFFFF)"

text \<open>\<^verbatim>\<open>(unsigned int)(lo | (hi << 8))\<close>\<close>

definition le16 :: "byte \<Rightarrow> byte \<Rightarrow> uint" where
  "le16 lo hi = ucast lo OR push_bit 8 (ucast hi)"

definition convert_vertex ::
  "ulong \<Rightarrow> ulong \<Rightarrow> conv_state \<Rightarrow> byte list \<Rightarrow> ulong \<Rightarrow> error option \<times> conv_state" where
  "convert_vertex x z s buf p =
     (case rd buf p of Inl e \<Rightarrow> (Some e, s) | Inr b0 \<Rightarrow>
     (case rd buf (p + 1) of Inl e \<Rightarrow> (Some e, s) | Inr b1 \<Rightarrow>
     (case rd buf (p + 2) of Inl e \<Rightarrow> (Some e, s) | Inr b2 \<Rightarrow>
     (case rd buf (p + 3) of Inl e \<Rightarrow> (Some e, s) | Inr b3 \<Rightarrow>
     (case rd buf (p + 4) of Inl e \<Rightarrow> (Some e, s) | Inr b4 \<Rightarrow>
     (case rd buf (p + 5) of Inl e \<Rightarrow> (Some e, s) | Inr b5 \<Rightarrow>
       (let bx = limit_within_bounds (le16 b0 b1);
            by = limit_within_bounds (le16 b2 b3);
            bz = limit_within_bounds (le16 b4 b5);
            s' = write_line (Vertex (unat (x + ucast bx)) (unat by) (unat (z + ucast bz))) s
        in (ferror_status s', s'))))))))"

subsection \<open>Triangles (lines 105--122)\<close>

text \<open>
  One turn of the loop of lines 113--118 on the index byte \<open>b\<close>: the global index, and
  the state after the comparison with \<open>vert_max\<close>.
\<close>

definition polygon_index :: "conv_state \<Rightarrow> byte \<Rightarrow> ulong \<times> conv_state" where
  "polygon_index s b =
     (let vert = prev_vert_max (idx s) + ucast b
      in (vert, if vert > vert_max (idx s) then store_idx ((idx s)\<lparr>vert_max := vert\<rparr>) s else s))"

text \<open>
  \<^verbatim>\<open>VERTICES_PER_POLYGON\<close> is 3: the loop reads \<^verbatim>\<open>buf[0]\<close>, \<^verbatim>\<open>buf[1]\<close>, \<^verbatim>\<open>buf[2]\<close> in turn.
\<close>

definition convert_polygon ::
  "conv_state \<Rightarrow> byte list \<Rightarrow> ulong \<Rightarrow> error option \<times> conv_state" where
  "convert_polygon s buf p =
     (case rd buf p of Inl e \<Rightarrow> (Some e, s) | Inr b0 \<Rightarrow>
     (case rd buf (p + 1) of Inl e \<Rightarrow> (Some e, s) | Inr b1 \<Rightarrow>
     (case rd buf (p + 2) of Inl e \<Rightarrow> (Some e, s) | Inr b2 \<Rightarrow>
       (let (v0, s0) = polygon_index s b0;
            (v1, s1) = polygon_index s0 b1;
            (v2, s2) = polygon_index s1 b2;
            s' = write_line (Face [unat v0, unat v1, unat v2]) s2
        in (ferror_status s', s')))))"

subsection \<open>Blocks (lines 124--166)\<close>

text \<open>
  The two loops of lines 158--161. The counter is an \<^verbatim>\<open>unsigned char\<close> compared with
  \<^verbatim>\<open>!=\<close>; the pointer advances after every turn, also after a failing one.
\<close>

lemma loop_counter_decreases:
  fixes i n :: "'a::len word"
  assumes "i \<noteq> n"
  shows "unat (n - (i + 1)) < unat (n - i)"
proof -
  from assms have "n - i \<noteq> 0" by simp
  then have "unat (n - i - 1) < unat (n - i)"
    by (simp add: unat_minus_one unat_gt_0)
  then show ?thesis by (simp add: diff_diff_eq add.commute)
qed

function polygons_loop ::
  "byte \<Rightarrow> byte \<Rightarrow> error option \<Rightarrow> ulong \<Rightarrow> conv_state \<Rightarrow> byte list
     \<Rightarrow> error option \<times> ulong \<times> conv_state" where
  "polygons_loop i num_polys res p s buf =
     (if res = None \<and> i \<noteq> num_polys
      then (case convert_polygon s buf p of
              (res', s') \<Rightarrow> polygons_loop (i + 1) num_polys res' (p + POLYGON_SIZE) s' buf)
      else (res, p, s))"
  by pat_completeness auto
termination
  by (relation "measure (\<lambda>(i, n, res, p, s, buf). unat (n - i))")
     (auto intro: loop_counter_decreases)

function vertices_loop ::
  "byte \<Rightarrow> byte \<Rightarrow> error option \<Rightarrow> ulong \<Rightarrow> ulong \<Rightarrow> ulong \<Rightarrow> conv_state \<Rightarrow> byte list
     \<Rightarrow> error option \<times> ulong \<times> conv_state" where
  "vertices_loop i num_verts res p x z s buf =
     (if res = None \<and> i \<noteq> num_verts
      then (case convert_vertex x z s buf p of
              (res', s') \<Rightarrow> vertices_loop (i + 1) num_verts res' (p + VERTEX_SIZE) x z s' buf)
      else (res, p, s))"
  by pat_completeness auto
termination
  by (relation "measure (\<lambda>(i, n, res, p, x, z, s, buf). unat (n - i))")
     (auto intro: loop_counter_decreases)

declare polygons_loop.simps [simp del] vertices_loop.simps [simp del]

text \<open>
  The offset of line 139: the four bytes are combined as an \<^verbatim>\<open>int\<close>, which the cast to
  \<^verbatim>\<open>unsigned long int\<close> sign-extends.
\<close>

definition le32 :: "byte \<Rightarrow> byte \<Rightarrow> byte \<Rightarrow> byte \<Rightarrow> uint" where
  "le32 b0 b1 b2 b3 =
     ucast b0 OR push_bit 8 (ucast b1) OR push_bit 16 (ucast b2) OR push_bit 24 (ucast b3)"

definition convert_block ::
  "uint \<Rightarrow> ulong \<Rightarrow> ulong \<Rightarrow> conv_state \<Rightarrow> byte list \<Rightarrow> error option \<times> conv_state" where
  "convert_block pos x z s buf =
     (let offset_loc = (ucast (GROUP_ID_SIZE + pos * BLOCK_OFFSET_SIZE) :: ulong) in
      case rd buf offset_loc of Inl e \<Rightarrow> (Some e, s) | Inr b0 \<Rightarrow>
     (case rd buf (offset_loc + 1) of Inl e \<Rightarrow> (Some e, s) | Inr b1 \<Rightarrow>
     (case rd buf (offset_loc + 2) of Inl e \<Rightarrow> (Some e, s) | Inr b2 \<Rightarrow>
     (case rd buf (offset_loc + 3) of Inl e \<Rightarrow> (Some e, s) | Inr b3 \<Rightarrow>
       (let offset = (scast (le32 b0 b1 b2 b3) :: ulong) in
        if offset > BLOCK_OFFSET_MAX then (Some InvalidBlockOffset, s)
        else
          (let p = offset_loc + (offset - offset_loc) in
           case rd buf p of Inl e \<Rightarrow> (Some e, s) | Inr num_polys \<Rightarrow>
          (case rd buf (p + 1) of Inl e \<Rightarrow> (Some e, s) | Inr num_verts \<Rightarrow>
            (let p0 = p + BLOCK_HEADER_SIZE;
                 x' = x + ucast (pos mod BLOCKS_PER_ROW) * BLOCK_BOUNDS;
                 z' = z + ucast (pos div BLOCKS_PER_ROW) * BLOCK_BOUNDS;
                 s1 = store_idx ((idx s)\<lparr>prev_vert_max := vert_max (idx s)\<rparr>) s;
                 (res1, p1, s2) = polygons_loop 0 num_polys None p0 s1 buf;
                 (res2, p2, s3) = vertices_loop 0 num_verts res1 p1 x' z' s2 buf;
                 s4 = store_idx ((idx s3)\<lparr>vert_max := vert_max (idx s3) + 1\<rparr>) s3
             in (res2, s4)))))))))"

subsection \<open>Segments and the driver (lines 168--231)\<close>

function blocks_loop ::
  "uint \<Rightarrow> error option \<Rightarrow> ulong \<Rightarrow> ulong \<Rightarrow> conv_state \<Rightarrow> byte list
     \<Rightarrow> error option \<times> conv_state" where
  "blocks_loop i res x z s buf =
     (if res = None \<and> i \<noteq> BLOCKS_PER_SEGMENT
      then (case convert_block i x z s buf of
              (res', s') \<Rightarrow> blocks_loop (i + 1) res' x z s' buf)
      else (res, s))"
  by pat_completeness auto
termination
  by (relation "measure (\<lambda>(i, res, x, z, s, buf). unat (BLOCKS_PER_SEGMENT - i))")
     (auto intro: loop_counter_decreases)

definition convert_segment ::
  "uint \<Rightarrow> conv_state \<Rightarrow> istream \<Rightarrow> error option \<times> conv_state \<times> istream" where
  "convert_segment pos s inp =
     (case fread_segment inp of
        None \<Rightarrow> (Some ReadError, s, inp)
      | Some (buf, inp') \<Rightarrow>
          (let x = ucast (pos mod SEGMENTS_PER_ROW) * SEGMENT_BOUNDS;
               z = ucast (pos div SEGMENTS_PER_ROW) * SEGMENT_BOUNDS;
               (res, s') = blocks_loop 0 None x z s buf
           in (res, s', inp')))"

function segments_loop ::
  "uint \<Rightarrow> uint \<Rightarrow> uint \<Rightarrow> error option \<Rightarrow> conv_state \<Rightarrow> istream
     \<Rightarrow> error option \<times> conv_state \<times> istream" where
  "segments_loop i endi j res s inp =
     (if res = None \<and> i \<noteq> endi
      then (case convert_segment j s inp of
              (res', s', inp') \<Rightarrow> segments_loop (i + 1) endi (j + 1) res' s' inp')
      else (res, s, inp))"
  by pat_completeness auto
termination
  by (relation "measure (\<lambda>(i, endi, j, res, s, inp). unat (endi - i))")
     (auto intro: loop_counter_decreases)

declare blocks_loop.simps [simp del] segments_loop.simps [simp del]

text \<open>
  The driver. \<open>mem\<close> says whether \<^verbatim>\<open>malloc\<close> returns a buffer. The counters are a local
  variable of the C function; the model returns the final state so that its history can
  be read, and the untouched initial state when the run fails before line 218.
\<close>

definition init_state :: "ostream \<Rightarrow> conv_state" where
  "init_state outp =
     \<lparr>idx = \<lparr>vert_max = 1, prev_vert_max = 1\<rparr>, out = outp,
      hist = [\<lparr>vert_max = 1, prev_vert_max = 1\<rparr>]\<rparr>"

definition convert_to_obj ::
  "uint \<Rightarrow> uint \<Rightarrow> istream \<Rightarrow> ostream \<Rightarrow> bool \<Rightarrow> error option \<times> conv_state \<times> istream" where
  "convert_to_obj start endi inp outp mem =
     (case fseek_set inp (ucast start * SEGMENT_SIZE) of
        None \<Rightarrow> (Some SeekError, init_state outp, inp)
      | Some inp1 \<Rightarrow>
          if \<not> mem then (Some OutOfMemory, init_state outp, inp1)
          else
            (let s = init_state outp;
                 z0 = start div SEGMENTS_PER_ROW;
                 z1 = endi div SEGMENTS_PER_ROW;
                 j = (if z0 \<noteq> z1 then start mod SEGMENTS_PER_ROW else 0)
             in segments_loop start (endi + 1) j None s inp1))"

subsection \<open>The lines and counters a block should produce\<close>

text \<open>
  What follows is not code of the program: these functions describe, from the bytes of a
  segment, the lines a record stands for and the effect of a list of index bytes on the
  counters. The program's functions are compared with them below.
\<close>

text \<open>The face line of the triangle record at byte \<open>q\<close>, for the base index \<open>prev\<close>.\<close>

definition face_line :: "ulong \<Rightarrow> byte list \<Rightarrow> nat \<Rightarrow> obj_line" where
  "face_line prev buf q =
     Face [unat (prev + ucast (buf ! q)), unat (prev + ucast (buf ! (q + 1))),
           unat (prev + ucast (buf ! (q + 2)))]"

text \<open>The vertex line of the vertex record at byte \<open>q\<close>, for the world offset \<open>(x, z)\<close>.\<close>

definition vertex_line :: "ulong \<Rightarrow> ulong \<Rightarrow> byte list \<Rightarrow> nat \<Rightarrow> obj_line" where
  "vertex_line x z buf q =
     Vertex (unat (x + ucast (limit_within_bounds (le16 (buf ! q) (buf ! (q + 1))))))
            (unat (limit_within_bounds (le16 (buf ! (q + 2)) (buf ! (q + 3)))))
            (unat (z + ucast (limit_within_bounds (le16 (buf ! (q + 4)) (buf ! (q + 5))))))"

text \<open>The state after the index bytes \<open>bs\<close> went through lines 114--117, in order.\<close>

definition poly_state :: "conv_state \<Rightarrow> byte list \<Rightarrow> conv_state" where
  "poly_state s bs = fold (\<lambda>b s. snd (polygon_index s b)) bs s"

definition write_lines :: "obj_line list \<Rightarrow> conv_state \<Rightarrow> conv_state" where
  "write_lines ls s = fold write_line ls s"

text \<open>The three index bytes of each of \<open>n\<close> triangle records that start at byte \<open>q\<close>.\<close>

definition index_bytes :: "byte list \<Rightarrow> nat \<Rightarrow> nat \<Rightarrow> byte list" where
  "index_bytes buf q n =
     concat (map (\<lambda>j. [buf ! (q + 16 * j), buf ! (q + 16 * j + 1), buf ! (q + 16 * j + 2)]) [0..<n])"

text \<open>
  The 16-bit little-endian number at byte \<open>q\<close>, and the fold-into-bounds rule on
  numbers: a value up to 2048 is kept, a larger one stands for its distance to 65536.
\<close>

definition raw16 :: "byte list \<Rightarrow> nat \<Rightarrow> nat" where
  "raw16 buf q = unat (buf ! q) + 256 * unat (buf ! (q + 1))"

definition fold_coord :: "nat \<Rightarrow> nat" where
  "fold_coord v = (if v \<le> 2048 then v else 65536 - v)"

text \<open>
  The entry of the offset table for the block at position \<open>pos\<close>: the four bytes from
  byte \<open>4 + 4 * pos\<close> on, read as a little-endian number.
\<close>

definition table_entry :: "byte list \<Rightarrow> nat \<Rightarrow> nat" where
  "table_entry buf pos =
     unat (buf ! (4 + 4 * pos)) + 256 * unat (buf ! (5 + 4 * pos))
       + 65536 * unat (buf ! (6 + 4 * pos)) + 16777216 * unat (buf ! (7 + 4 * pos))"

text \<open>
  The offset that line 139 computes for the block at position \<open>pos\<close>, and the counters
  stored by line 155 and by line 163.
\<close>

definition block_offset :: "byte list \<Rightarrow> uint \<Rightarrow> ulong" where
  "block_offset buf pos =
     scast (le32 (buf ! (4 + 4 * unat pos)) (buf ! (5 + 4 * unat pos))
                 (buf ! (6 + 4 * unat pos)) (buf ! (7 + 4 * unat pos)))"

definition block_begin :: "conv_state \<Rightarrow> conv_state" where
  "block_begin s = store_idx ((idx s)\<lparr>prev_vert_max := vert_max (idx s)\<rparr>) s"

definition block_end :: "conv_state \<Rightarrow> conv_state" where
  "block_end s = store_idx ((idx s)\<lparr>vert_max := vert_max (idx s) + 1\<rparr>) s"

text \<open>
  The state in which a block at offset \<open>off\<close> with \<open>np\<close> triangle records and \<open>nv\<close>
  vertex records should leave the conversion: the counters have gone through the index
  bytes, the face lines and then the vertex lines are written, and line 163 has run.
\<close>

definition block_result ::
  "ulong \<Rightarrow> ulong \<Rightarrow> conv_state \<Rightarrow> byte list \<Rightarrow> nat \<Rightarrow> nat \<Rightarrow> nat \<Rightarrow> conv_state" where
  "block_result x z s buf off np nv =
     block_end
       (write_lines
         (map (\<lambda>j. face_line (vert_max (idx s)) buf (off + 4 + 16 * j)) [0..<np] @
          map (\<lambda>j. vertex_line x z buf (off + 4 + 16 * np + 8 * j)) [0..<nv])
         (poly_state (block_begin s) (index_bytes buf (off + 4) np)))"

text \<open>
  The vertex lines of the block at position \<open>pos\<close> when the segment has the world offset
  \<open>(X, Z)\<close>: for each vertex record, the folded raw coordinates, the first and the third
  moved by the offset of the segment plus that of the block.
\<close>

definition block_vertex_lines :: "nat \<Rightarrow> nat \<Rightarrow> nat \<Rightarrow> byte list \<Rightarrow> obj_line list" where
  "block_vertex_lines X Z pos buf =
     (let off = unat (block_offset buf (of_nat pos));
          np = unat (buf ! off); nv = unat (buf ! (off + 1))
      in map (\<lambda>j. Vertex
                (X + pos mod 4 * 2048 + fold_coord (raw16 buf (off + 4 + 16 * np + 8 * j)))
                (fold_coord (raw16 buf (off + 4 + 16 * np + 8 * j + 2)))
                (Z + pos div 4 * 2048 + fold_coord (raw16 buf (off + 4 + 16 * np + 8 * j + 4))))
           [0..<nv])"

text \<open>
  The order on the values of the counters, a history in which the counters never
  decrease and \<open>prev_vert_max\<close> never exceeds \<open>vert_max\<close>, and a state whose history is
  such, ends with the current counters, and has \<open>vert_max\<close> at most \<open>B\<close>.
\<close>

definition counters_le :: "VertexIndexData \<Rightarrow> VertexIndexData \<Rightarrow> bool" where
  "counters_le a b \<longleftrightarrow> vert_max a \<le> vert_max b \<and> prev_vert_max a \<le> prev_vert_max b"

definition counters_ok :: "VertexIndexData list \<Rightarrow> bool" where
  "counters_ok h \<longleftrightarrow>
     sorted_wrt counters_le h \<and> (\<forall>v\<in>set h. prev_vert_max v \<le> vert_max v)"

definition tracked :: "nat \<Rightarrow> conv_state \<Rightarrow> bool" where
  "tracked B s \<longleftrightarrow>
     hist s \<noteq> [] \<and> last (hist s) = idx s \<and> counters_ok (hist s) \<and> unat (vert_max (idx s)) \<le> B"

subsection \<open>The state in which a block is reached\<close>

text \<open>
  The state in which the loop of lines 190--191 reaches the block at position \<open>n\<close>: the
  state that the blocks at the positions 0 to \<open>n - 1\<close> leave, if each of them is decoded
  without failure; otherwise the loop does not reach that block.
\<close>

fun blocks_before :: "nat \<Rightarrow> ulong \<Rightarrow> ulong \<Rightarrow> conv_state \<Rightarrow> byte list \<Rightarrow> conv_state option" where
  "blocks_before 0 x z s buf = Some s"
| "blocks_before (Suc n) x z s buf =
     (case blocks_before n x z s buf of
        None \<Rightarrow> None
      | Some s1 \<Rightarrow>
          (case convert_block (of_nat n) x z s1 buf of
             (None, s2) \<Rightarrow> Some s2
           | (Some e, s2) \<Rightarrow> None))"

subsection \<open>What a face line refers to\<close>

text \<open>
  In a Wavefront OBJ file the index \<open>g\<close> of a face line names the \<open>g\<close>-th vertex line of
  the file, counted from 1. \<open>vertex_pos ls g\<close> is the position in \<open>ls\<close> (from 0) of that
  line, if \<open>ls\<close> has one; \<open>refers_later ls k\<close> says of the line at position \<open>k\<close> that, if
  it is a face line, every vertex line it names is in \<open>ls\<close> at a position after \<open>k\<close>.
\<close>

fun is_vertex :: "obj_line \<Rightarrow> bool" where
  "is_vertex (Vertex a b c) = True"
| "is_vertex (Face gs) = False"

definition vertex_count :: "obj_line list \<Rightarrow> nat" where
  "vertex_count ls = length (filter is_vertex ls)"

fun vertex_pos :: "obj_line list \<Rightarrow> nat \<Rightarrow> nat option" where
  "vertex_pos [] g = None"
| "vertex_pos (l # ls) g =
     (if is_vertex l
      then (if g = 1 then Some 0 else map_option Suc (vertex_pos ls (g - 1)))
      else map_option Suc (vertex_pos ls g))"

definition refers_later :: "obj_line list \<Rightarrow> nat \<Rightarrow> bool" where
  "refers_later ls k =
     (case ls ! k of
        Face gs \<Rightarrow> list_all (\<lambda>g. case vertex_pos ls g of None \<Rightarrow> False | Some p \<Rightarrow> k < p) gs
      | Vertex a b c \<Rightarrow> True)"

subsection \<open>The text of a line\<close>

text \<open>
  The text that \<^verbatim>\<open>fprintf\<close> writes for a line, without the final newline: \<^verbatim>\<open>%lu\<close> is
  the decimal numeral, and \<^verbatim>\<open>%.3Lf\<close> of \<open>n * 0.001L\<close> is taken to be \<open>n / 1000\<close> with
  three decimals (the \<^verbatim>\<open>long double\<close> product is within rounding distance of it).
\<close>

definition digit_char :: "nat \<Rightarrow> char" where
  "digit_char d = ''0123456789'' ! d"

fun dec :: "nat \<Rightarrow> string" where
  "dec n = (if n < 10 then [digit_char n] else dec (n div 10) @ [digit_char (n mod 10)])"

declare dec.simps [simp del]

definition fixed3 :: "nat \<Rightarrow> string" where
  "fixed3 n = dec (n div 1000) @ ''.'' @
     [digit_char (n div 100 mod 10), digit_char (n div 10 mod 10), digit_char (n mod 10)]"

fun render_line :: "obj_line \<Rightarrow> string" where
  "render_line (Face vs) = ''f'' @ concat (map (\<lambda>v. '' '' @ dec v) vs)"
| "render_line (Vertex a b c) = ''v '' @ fixed3 a @ '' '' @ fixed3 b @ '' '' @ fixed3 c"

subsection \<open>Test data\<close>

text \<open>
  A segment whose block 0 lies at offset 68 and holds one triangle with the local
  indices 0, 1, 2 and three vertex records, the bytes \<open>vb\<close>; the offset table sends the
  other fifteen blocks to offset 0, where the header bytes say no triangle and no vertex.
\<close>

definition minimal_segment :: "byte list \<Rightarrow> byte list" where
  "minimal_segment vb =
     replicate 4 0 @ [68, 0, 0, 0] @ replicate 60 0 @
     [1, 3, 0, 0] @
     [0, 1, 2] @ replicate 13 0 @
     vb @ replicate (36776 - length vb) 0"

definition test_vertices :: "byte list" where
  "test_vertices =
     [100, 0, 200, 0, 0x2C, 1, 0, 0,
      0xFF, 0xFF, 0, 8, 1, 8, 0, 0,
      0xE8, 3, 0xD0, 7, 0xB8, 0x0B, 0, 0]"

definition test_sink :: ostream where
  "test_sink = \<lparr>olines = [], oroom = 1000, oerr = False\<rparr>"

text \<open>
  The same segment with the table entry of block 1 set to 34561, the input file that
  holds this one segment, and a segment of zeros whose table entry of block 0 is 2305.
\<close>

definition rejected_segment :: "byte list" where
  "rejected_segment = (minimal_segment test_vertices)[8 := 1, 9 := 0x87]"

definition rejected_file :: istream where
  "rejected_file = \<lparr>content = rejected_segment, fpos = 0, seekable = True\<rparr>"

definition offset_2305_segment :: "byte list" where
  "offset_2305_segment = replicate 4 0 @ [1, 9, 0, 0] @ replicate 36856 0"

text \<open>
  A segment of zeros whose block 0 lies at the greatest offset the check accepts, 34560,
  and announces 255 triangle records and 255 vertex records.
\<close>

definition overrun_segment :: "byte list" where
  "overrun_segment =
     replicate 4 0 @ [0, 0x87, 0, 0] @ replicate 34552 0 @ [255, 255] @ replicate 2302 0"

text \<open>The input file that holds this one segment.\<close>

definition test_file :: istream where
  "test_file = \<lparr>content = minimal_segment test_vertices, fpos = 0, seekable = True\<rparr>"

text \<open>
  A segment of two blocks: block 0, at offset 68, holds one triangle with the local
  indices 0, 1, 2 and four vertex records, the last of which no triangle uses; block 1, at
  offset 120, holds one triangle with the local indices 0, 1, 2 and three vertex records.
  All coordinates are 0. The other fourteen blocks are empty as in \<open>minimal_segment\<close>.
\<close>

definition two_block_segment :: "byte list" where
  "two_block_segment =
     replicate 4 0 @ [68, 0, 0, 0] @ [120, 0, 0, 0] @ replicate 56 0 @
     [1, 4, 0, 0] @ [0, 1, 2] @ replicate 13 0 @ replicate 32 0 @
     [1, 3, 0, 0] @ [0, 1, 2] @ replicate 13 0 @ replicate 24 0 @
     replicate 36700 0"

definition two_block_file :: istream where
  "two_block_file = \<lparr>content = two_block_segment, fpos = 0, seekable = True\<rparr>"

section \<open>Properties\<close>

subsection \<open>The constants\<close>

lemma BLOCK_BOUNDS_eq: "BLOCK_BOUNDS = 2048"
  by (simp add: BLOCK_BOUNDS_def SEGMENT_BOUNDS_def)

lemma BLOCK_SIZE_eq: "BLOCK_SIZE = 2304"
  by (simp add: BLOCK_SIZE_def SEGMENT_SIZE_def BLOCKS_PER_SEGMENT_def)

lemma BLOCK_OFFSET_MAX_eq: "BLOCK_OFFSET_MAX = 34560"
  by (simp add: BLOCK_OFFSET_MAX_def BLOCK_SIZE_eq) (simp add: SEGMENT_SIZE_def)

subsection \<open>Widening casts keep the value\<close>

lemma unat_ucast_up:
  fixes v :: "'a::len word"
  assumes "LENGTH('a) \<le> LENGTH('b::len)"
  shows "unat (ucast v :: 'b word) = unat v"
proof -
  have "unat v < 2 ^ LENGTH('a)"
    by simp
  also have "(2::nat) ^ LENGTH('a) \<le> 2 ^ LENGTH('b)"
    using assms by (simp add: power_increasing)
  finally show ?thesis
    by (simp add: unsigned_ucast_eq take_bit_nat_eq_self)
qed

subsection \<open>Folding a coordinate into the block\<close>

lemma neg_masked_16: "(NOT v + 1) AND 0xFFFF = take_bit 16 (- v)" for v :: uint
proof -
  have "(0xFFFF :: uint) = mask 16"
    by (simp add: mask_eq_exp_minus_1)
  then show ?thesis
    by (simp add: take_bit_eq_mask minus_eq_not_plus_1)
qed

lemma unat_neg_16:
  fixes v :: uint
  assumes "0 < v" "v \<le> 65535"
  shows "unat (take_bit 16 (- v)) = 65536 - unat v"
proof -
  have v: "0 < unat v" "unat v \<le> 65535"
    using assms by (simp_all add: word_le_nat_alt word_less_nat_alt)
  have "unat (0 - v) = 2 ^ 32 - unat v"
    using v unat_sub_if_size [of 0 v] by (simp add: word_size)
  then have "unat (take_bit 16 (- v)) = take_bit 16 (2 ^ 32 - unat v)"
    by (simp add: unsigned_take_bit_eq)
  also have "\<dots> = (2 ^ 32 - unat v) mod 2 ^ 16"
    by (simp only: take_bit_eq_mod)
  also have "\<dots> = 65536 - unat v"
  proof (rule mod_nat_eqI)
    have "2 ^ 32 - unat v - (65536 - unat v) = 65535 * 65536"
      using v by simp
    then show "2 ^ 16 dvd 2 ^ 32 - unat v - (65536 - unat v)"
      by simp
  qed (use v in simp_all)
  finally show ?thesis .
qed

text \<open>
  C1. For every raw 16-bit value \<open>v\<close> (at most 65535), \<open>limit_within_bounds\<close> returns
  \<open>v\<close> itself when \<open>v \<le> 2048\<close>, which is \<open>BLOCK_BOUNDS\<close>, and \<open>(~v + 1) & 0xFFFF\<close> when
  \<open>v > 2048\<close>, which is the number \<open>65536 - v\<close>. In particular 65535 folds to 1 and the
  boundary value 2048 is kept.
\<close>

theorem limit_within_bounds_fold:
  fixes v :: uint
  assumes "v \<le> 65535"
  shows "unat BLOCK_BOUNDS = 2048
       \<and> (v \<le> 2048 \<longrightarrow> limit_within_bounds v = v)
       \<and> (2048 < v \<longrightarrow> limit_within_bounds v = (NOT v + 1) AND 0xFFFF
                      \<and> unat (limit_within_bounds v) = 65536 - unat v)
       \<and> limit_within_bounds 65535 = 1
       \<and> limit_within_bounds 2048 = 2048"
proof -
  have small: "limit_within_bounds v = v" if "v \<le> 2048"
  proof -
    from that have "unat v \<le> 2048"
      by (simp add: word_le_nat_alt)
    then have "(ucast v :: ulong) \<le> 2048"
      by (simp add: word_le_nat_alt unat_ucast_up)
    then show ?thesis
      by (simp add: limit_within_bounds_def BLOCK_BOUNDS_eq)
  qed
  have large: "limit_within_bounds v = (NOT v + 1) AND 0xFFFF" if "2048 < v"
  proof -
    from that have "2048 < unat v"
      by (simp add: word_less_nat_alt)
    then have "\<not> (ucast v :: ulong) \<le> 2048"
      by (simp add: word_le_nat_alt unat_ucast_up)
    then show ?thesis
      by (simp add: limit_within_bounds_def BLOCK_BOUNDS_eq)
  qed
  have folded: "unat (limit_within_bounds v) = 65536 - unat v" if "2048 < v"
  proof -
    from that have "0 < v"
      by (simp add: word_less_nat_alt)
    with assms show ?thesis
      by (simp add: large [OF that] neg_masked_16 unat_neg_16)
  qed
  have "limit_within_bounds 65535 = 1" "limit_within_bounds 2048 = 2048"
    by (simp_all add: limit_within_bounds_def BLOCK_BOUNDS_eq)
  with small large folded show ?thesis
    by (simp add: BLOCK_BOUNDS_eq)
qed

theorem limit_within_bounds_fold_witness:
  "(2049 :: uint) \<le> 65535 \<and> limit_within_bounds 2049 = 63487
     \<and> unat (limit_within_bounds 2049) = 65536 - 2049"
  using limit_within_bounds_fold [of 2049] by simp

subsection \<open>Reading, writing and storing\<close>

lemma rd_Inr_iff: "rd buf p = Inr b \<longleftrightarrow> unat p < length buf \<and> b = buf ! unat p"
  by (auto simp: rd_def)

lemma rd_Inl_iff: "rd buf p = Inl e \<longleftrightarrow> length buf \<le> unat p \<and> e = BufferOverrun (unat p)"
  by (auto simp: rd_def)

lemma unat_ptr_add:
  fixes p k :: ulong
  assumes "unat p + unat k < 2 ^ 64"
  shows "unat (p + k) = unat p + unat k"
  using assms by (simp add: unat_add_lem [THEN iffD1])

lemma fput_line_simps:
  "olines (fput_line l f) = (if oroom f = 0 then olines f else olines f @ [l])"
  "oroom (fput_line l f) = oroom f - 1"
  "oerr (fput_line l f) = (oerr f \<or> oroom f = 0)"
  by (simp_all add: fput_line_def)

lemma store_idx_simps [simp]:
  "idx (store_idx v s) = v" "out (store_idx v s) = out s" "hist (store_idx v s) = hist s @ [v]"
  by (simp_all add: store_idx_def)

lemma write_line_simps [simp]:
  "idx (write_line l s) = idx s" "out (write_line l s) = fput_line l (out s)"
  "hist (write_line l s) = hist s"
  by (simp_all add: write_line_def)

lemma convert_vertex_None:
  assumes "convert_vertex x z s buf p = (None, s')" "unat p + 5 < 2 ^ 64"
  shows "unat p + 5 < length buf"
    and "s' = write_line (vertex_line x z buf (unat p)) s"
    and "0 < oroom (out s)" and "\<not> oerr (out s)"
proof -
  from assms(2) have u: "unat (p + 1) = unat p + 1" "unat (p + 2) = unat p + 2"
    "unat (p + 3) = unat p + 3" "unat (p + 4) = unat p + 4" "unat (p + 5) = unat p + 5"
    by (simp_all add: unat_ptr_add)
  from assms(1) have r: "unat (p + 5) < length buf"
    by (auto simp: convert_vertex_def rd_Inl_iff rd_Inr_iff split: sum.splits)
  with u show b: "unat p + 5 < length buf" by simp
  from assms(1) b u show "s' = write_line (vertex_line x z buf (unat p)) s"
    by (simp add: convert_vertex_def rd_def vertex_line_def Let_def)
  from assms(1) b u show "0 < oroom (out s)" "\<not> oerr (out s)"
    by (auto simp add: convert_vertex_def rd_def Let_def ferror_status_def fput_line_simps split: if_splits)
qed

lemma polygon_index_out [simp]: "out (snd (polygon_index s b)) = out s"
  by (simp add: polygon_index_def Let_def)

lemma polygon_index_prev [simp]:
  "prev_vert_max (idx (snd (polygon_index s b))) = prev_vert_max (idx s)"
  by (simp add: polygon_index_def Let_def)

lemma polygon_index_fst [simp]: "fst (polygon_index s b) = prev_vert_max (idx s) + ucast b"
  by (simp add: polygon_index_def Let_def)

lemma polygon_index_write_line:
  "snd (polygon_index (write_line l s) b) = write_line l (snd (polygon_index s b))"
  by (simp add: polygon_index_def Let_def write_line_def store_idx_def)

lemma poly_state_simps [simp]:
  "poly_state s [] = s"
  "poly_state s (b # bs) = poly_state (snd (polygon_index s b)) bs"
  "poly_state s (as @ bs) = poly_state (poly_state s as) bs"
  by (simp_all add: poly_state_def)

lemma poly_state_out [simp]: "out (poly_state s bs) = out s"
  by (induction bs arbitrary: s) simp_all

lemma poly_state_prev [simp]: "prev_vert_max (idx (poly_state s bs)) = prev_vert_max (idx s)"
  by (induction bs arbitrary: s) simp_all

lemma poly_state_write_line: "poly_state (write_line l s) bs = write_line l (poly_state s bs)"
  by (induction bs arbitrary: s) (simp_all add: polygon_index_write_line)

lemma write_lines_simps [simp]:
  "write_lines [] s = s"
  "write_lines (l # ls) s = write_lines ls (write_line l s)"
  "write_lines (ks @ ls) s = write_lines ls (write_lines ks s)"
  by (simp_all add: write_lines_def)

lemma write_lines_idx [simp]: "idx (write_lines ls s) = idx s"
  by (induction ls arbitrary: s) simp_all

lemma write_lines_hist [simp]: "hist (write_lines ls s) = hist s"
  by (induction ls arbitrary: s) simp_all

lemma poly_state_write_lines: "poly_state (write_lines ls s) bs = write_lines ls (poly_state s bs)"
  by (induction ls arbitrary: s) (simp_all add: poly_state_write_line)

lemma convert_polygon_None:
  assumes "convert_polygon s buf p = (None, s')" "unat p + 2 < 2 ^ 64"
  shows "unat p + 2 < length buf"
    and "s' = write_line (face_line (prev_vert_max (idx s)) buf (unat p))
                (poly_state s [buf ! unat p, buf ! (unat p + 1), buf ! (unat p + 2)])"
    and "0 < oroom (out s)" and "\<not> oerr (out s)"
proof -
  from assms(2) have u: "unat (p + 1) = unat p + 1" "unat (p + 2) = unat p + 2"
    by (simp_all add: unat_ptr_add)
  from assms(1) have r: "unat (p + 2) < length buf"
    by (auto simp: convert_polygon_def rd_Inl_iff rd_Inr_iff split: sum.splits)
  with u show b: "unat p + 2 < length buf" by simp
  from assms(1) b u show "s' = write_line (face_line (prev_vert_max (idx s)) buf (unat p))
                (poly_state s [buf ! unat p, buf ! (unat p + 1), buf ! (unat p + 2)])"
    by (simp add: convert_polygon_def rd_def face_line_def Let_def split_beta)
  from assms(1) b u show "0 < oroom (out s)" "\<not> oerr (out s)"
    by (auto simp add: convert_polygon_def rd_def Let_def split_beta ferror_status_def fput_line_simps split: if_splits)
qed

lemma index_bytes_Suc:
  "index_bytes buf q (Suc k) =
     [buf ! q, buf ! (q + 1), buf ! (q + 2)] @ index_bytes buf (q + 16) k"
  by (simp add: index_bytes_def map_upt_Suc add.assoc del: upt_Suc)

lemma index_bytes_0 [simp]: "index_bytes buf q 0 = []"
  by (simp add: index_bytes_def)

lemma polygons_loop_stop: "res \<noteq> None \<Longrightarrow> polygons_loop i n res p s buf = (res, p, s)"
  by (subst polygons_loop.simps) auto

lemma polygons_loop_done: "polygons_loop n n res p s buf = (res, p, s)"
  by (subst polygons_loop.simps) simp

lemma polygons_loop_step:
  "i \<noteq> n \<Longrightarrow> polygons_loop i n None p s buf =
     (case convert_polygon s buf p of
        (res', s') \<Rightarrow> polygons_loop (i + 1) n res' (p + POLYGON_SIZE) s' buf)"
  by (subst polygons_loop.simps) simp

lemma vertices_loop_stop: "res \<noteq> None \<Longrightarrow> vertices_loop i n res p x z s buf = (res, p, s)"
  by (subst vertices_loop.simps) auto

lemma vertices_loop_done: "vertices_loop n n res p x z s buf = (res, p, s)"
  by (subst vertices_loop.simps) simp

lemma vertices_loop_step:
  "i \<noteq> n \<Longrightarrow> vertices_loop i n None p x z s buf =
     (case convert_vertex x z s buf p of
        (res', s') \<Rightarrow> vertices_loop (i + 1) n res' (p + VERTEX_SIZE) x z s' buf)"
  by (subst vertices_loop.simps) simp

lemma unat_diff_Suc:
  fixes i n :: "'a::len word"
  assumes "unat (n - i) = Suc k"
  shows "i \<noteq> n" "unat (n - (i + 1)) = k"
proof -
  from assms show "i \<noteq> n" by auto
  have "n - i \<noteq> 0" using assms by auto
  then have "unat (n - i - 1) = unat (n - i) - 1"
    by (simp add: unat_minus_one)
  with assms show "unat (n - (i + 1)) = k"
    by (simp add: diff_diff_eq add.commute)
qed

lemma polygons_loop_None:
  assumes "polygons_loop i n None p s buf = (None, p', s')"
    and "unat (n - i) = k" and "unat p + 16 * k < 2 ^ 64"
  shows "s' = write_lines (map (\<lambda>j. face_line (prev_vert_max (idx s)) buf (unat p + 16 * j)) [0..<k])
                (poly_state s (index_bytes buf (unat p) k))
       \<and> unat p' = unat p + 16 * k \<and> k \<le> oroom (out s)
       \<and> (0 < k \<longrightarrow> unat p + 16 * k \<le> length buf + 13 \<and> \<not> oerr (out s))"
  using assms
proof (induction k arbitrary: i p s)
  case 0
  then have "i = n" by (simp add: unat_0_iff)
  with 0 show ?case by (simp add: polygons_loop_done)
next
  case (Suc k)
  from Suc.prems(2) have i: "i \<noteq> n" "unat (n - (i + 1)) = k"
    by (rule unat_diff_Suc)+
  obtain r1 s1 where c: "convert_polygon s buf p = (r1, s1)"
    by (cases "convert_polygon s buf p")
  with Suc.prems(1) i have l: "polygons_loop (i + 1) n r1 (p + 16) s1 buf = (None, p', s')"
    by (simp add: polygons_loop_step POLYGON_SIZE_def)
  have r1: "r1 = None"
  proof (rule ccontr)
    assume "r1 \<noteq> None"
    with l show False by (simp add: polygons_loop_stop)
  qed
  from Suc.prems(3) have p2: "unat p + 2 < 2 ^ 64" by simp
  note cp = convert_polygon_None [OF c [unfolded r1] p2]
  from Suc.prems(3) have u: "unat (p + 16) = unat p + 16"
    by (simp add: unat_ptr_add)
  with Suc.prems(3) have "unat (p + 16) + 16 * k < 2 ^ 64" by simp
  from Suc.IH [OF l [unfolded r1] i(2) this]
  have ih: "s' = write_lines (map (\<lambda>j. face_line (prev_vert_max (idx s1)) buf (unat (p + 16) + 16 * j)) [0..<k])
                (poly_state s1 (index_bytes buf (unat (p + 16)) k))"
    "unat p' = unat (p + 16) + 16 * k" "k \<le> oroom (out s1)"
    "0 < k \<longrightarrow> unat (p + 16) + 16 * k \<le> length buf + 13 \<and> \<not> oerr (out s1)"
    by simp_all
  have prev: "prev_vert_max (idx s1) = prev_vert_max (idx s)"
    by (simp add: cp(2))
  have "s' = write_lines (map (\<lambda>j. face_line (prev_vert_max (idx s)) buf (unat p + 16 * j)) [0..<Suc k])
                (poly_state s (index_bytes buf (unat p) (Suc k)))"
    unfolding ih(1) prev u
    by (simp add: cp(2) index_bytes_Suc map_upt_Suc poly_state_write_line add.assoc del: upt_Suc)
  moreover have "unat p' = unat p + 16 * Suc k"
    using ih(2) u by simp
  moreover have "Suc k \<le> oroom (out s)"
    using ih(3) cp(3) by (simp add: cp(2) fput_line_simps)
  moreover have "unat p + 16 * Suc k \<le> length buf + 13"
    using ih(4) u cp(1) by (cases k) simp_all
  ultimately show ?case using cp(4) by simp
qed

lemma convert_polygon_inside:
  assumes "unat p + 2 < length buf" "unat p + 2 < 2 ^ 64"
  shows "convert_polygon s buf p =
     (let s' = write_line (face_line (prev_vert_max (idx s)) buf (unat p))
                (poly_state s [buf ! unat p, buf ! (unat p + 1), buf ! (unat p + 2)])
      in (ferror_status s', s'))"
proof -
  from assms(2) have u: "unat (p + 1) = unat p + 1" "unat (p + 2) = unat p + 2"
    by (simp_all add: unat_ptr_add)
  with assms(1) show ?thesis
    by (simp add: convert_polygon_def rd_def face_line_def Let_def split_beta)
qed

lemma convert_polygon_outside:
  assumes "\<not> unat p + 2 < length buf" "unat p + 2 < 2 ^ 64"
  shows "\<exists>e. length buf \<le> e \<and> convert_polygon s buf p = (Some (BufferOverrun e), s)"
proof -
  from assms(2) have u: "unat (p + 1) = unat p + 1" "unat (p + 2) = unat p + 2"
    by (simp_all add: unat_ptr_add)
  with assms(1) show ?thesis
    by (auto simp: convert_polygon_def rd_def Let_def split_beta)
qed

lemma convert_vertex_inside:
  assumes "unat p + 5 < length buf" "unat p + 5 < 2 ^ 64"
  shows "convert_vertex x z s buf p =
     (let s' = write_line (vertex_line x z buf (unat p)) s in (ferror_status s', s'))"
proof -
  from assms(2) have u: "unat (p + 1) = unat p + 1" "unat (p + 2) = unat p + 2"
    "unat (p + 3) = unat p + 3" "unat (p + 4) = unat p + 4" "unat (p + 5) = unat p + 5"
    by (simp_all add: unat_ptr_add)
  with assms(1) show ?thesis
    by (simp add: convert_vertex_def rd_def vertex_line_def Let_def)
qed

lemma convert_vertex_outside:
  assumes "\<not> unat p + 5 < length buf" "unat p + 5 < 2 ^ 64"
  shows "\<exists>e. length buf \<le> e \<and> convert_vertex x z s buf p = (Some (BufferOverrun e), s)"
proof -
  from assms(2) have u: "unat (p + 1) = unat p + 1" "unat (p + 2) = unat p + 2"
    "unat (p + 3) = unat p + 3" "unat (p + 4) = unat p + 4" "unat (p + 5) = unat p + 5"
    by (simp_all add: unat_ptr_add)
  with assms(1) show ?thesis
    by (auto simp: convert_vertex_def rd_def Let_def)
qed

lemma vertices_loop_None:
  assumes "vertices_loop i n None p x z s buf = (None, p', s')"
    and "unat (n - i) = k" and "unat p + 8 * k < 2 ^ 64"
  shows "s' = write_lines (map (\<lambda>j. vertex_line x z buf (unat p + 8 * j)) [0..<k]) s
       \<and> k \<le> oroom (out s)
       \<and> (0 < k \<longrightarrow> unat p + 8 * k \<le> length buf + 2 \<and> \<not> oerr (out s))"
  using assms
proof (induction k arbitrary: i p s)
  case 0
  then have "i = n" by (simp add: unat_0_iff)
  with 0 show ?case by (simp add: vertices_loop_done)
next
  case (Suc k)
  from Suc.prems(2) have i: "i \<noteq> n" "unat (n - (i + 1)) = k"
    by (rule unat_diff_Suc)+
  obtain r1 s1 where c: "convert_vertex x z s buf p = (r1, s1)"
    by (cases "convert_vertex x z s buf p")
  with Suc.prems(1) i have l: "vertices_loop (i + 1) n r1 (p + 8) x z s1 buf = (None, p', s')"
    by (simp add: vertices_loop_step VERTEX_SIZE_def)
  have r1: "r1 = None"
  proof (rule ccontr)
    assume "r1 \<noteq> None"
    with l show False by (simp add: vertices_loop_stop)
  qed
  from Suc.prems(3) have p5: "unat p + 5 < 2 ^ 64" by simp
  note cv = convert_vertex_None [OF c [unfolded r1] p5]
  from Suc.prems(3) have u: "unat (p + 8) = unat p + 8"
    by (simp add: unat_ptr_add)
  with Suc.prems(3) have "unat (p + 8) + 8 * k < 2 ^ 64" by simp
  from Suc.IH [OF l [unfolded r1] i(2) this]
  have ih: "s' = write_lines (map (\<lambda>j. vertex_line x z buf (unat (p + 8) + 8 * j)) [0..<k]) s1"
    "k \<le> oroom (out s1)"
    "0 < k \<longrightarrow> unat (p + 8) + 8 * k \<le> length buf + 2 \<and> \<not> oerr (out s1)"
    by simp_all
  have "s' = write_lines (map (\<lambda>j. vertex_line x z buf (unat p + 8 * j)) [0..<Suc k]) s"
    unfolding ih(1) u
    by (simp add: cv(2) map_upt_Suc add.assoc del: upt_Suc)
  moreover have "Suc k \<le> oroom (out s)"
    using ih(2) cv(3) by (simp add: cv(2) fput_line_simps)
  moreover have "unat p + 8 * Suc k \<le> length buf + 2"
    using ih(3) u cv(1) by (cases k) simp_all
  ultimately show ?case using cv(4) by simp
qed

text \<open>Any outcome of the loops.\<close>

lemma polygons_loop_shape:
  assumes "polygons_loop i n res p s buf = (r, p', s')"
  shows "\<exists>bs ls. s' = write_lines ls (poly_state s bs) \<and> (\<forall>l\<in>set ls. \<exists>vs. l = Face vs)"
  using assms
proof (induction i n res p s buf rule: polygons_loop.induct)
  case (1 i n res p s buf)
  show ?case
  proof (cases "res = None \<and> i \<noteq> n")
    case False
    with "1.prems" have "s' = s"
      by (subst (asm) polygons_loop.simps) auto
    then have "s' = write_lines [] (poly_state s [])" by simp
    then show ?thesis by fastforce
  next
    case True
    obtain r1 s1 where c: "convert_polygon s buf p = (r1, s1)"
      by (cases "convert_polygon s buf p")
    with True "1.prems" have l: "polygons_loop (i + 1) n r1 (p + POLYGON_SIZE) s1 buf = (r, p', s')"
      by (subst (asm) polygons_loop.simps) simp
    from "1.IH" [OF True c [symmetric] l]
    obtain bs ls where ih: "s' = write_lines ls (poly_state s1 bs)" "\<forall>l\<in>set ls. \<exists>vs. l = Face vs"
      by blast
    have "\<exists>bs1 ls1. s1 = write_lines ls1 (poly_state s bs1) \<and> (\<forall>l\<in>set ls1. \<exists>vs. l = Face vs)"
    proof (cases "rd buf p")
      case (Inl e)
      with c have "s1 = write_lines [] (poly_state s [])"
        by (simp add: convert_polygon_def)
      then show ?thesis by fastforce
    next
      case b0: (Inr b0)
      show ?thesis
      proof (cases "rd buf (p + 1)")
        case (Inl e)
        with c b0 have "s1 = write_lines [] (poly_state s [])"
          by (simp add: convert_polygon_def)
        then show ?thesis by fastforce
      next
        case b1: (Inr b1)
        show ?thesis
        proof (cases "rd buf (p + 2)")
          case (Inl e)
          with c b0 b1 have "s1 = write_lines [] (poly_state s [])"
            by (simp add: convert_polygon_def)
          then show ?thesis by fastforce
        next
          case b2: (Inr b2)
          with c b0 b1 have "s1 = write_lines [Face [unat (fst (polygon_index s b0)),
                 unat (fst (polygon_index (snd (polygon_index s b0)) b1)),
                 unat (fst (polygon_index (snd (polygon_index (snd (polygon_index s b0)) b1)) b2))]]
              (poly_state s [b0, b1, b2])"
            by (simp add: convert_polygon_def Let_def split_beta del: polygon_index_fst)
          then show ?thesis by fastforce
        qed
      qed
    qed
    then obtain bs1 ls1 where s1: "s1 = write_lines ls1 (poly_state s bs1)" "\<forall>l\<in>set ls1. \<exists>vs. l = Face vs"
      by blast
    have "s' = write_lines (ls1 @ ls) (poly_state s (bs1 @ bs))"
      by (simp add: ih(1) s1(1) poly_state_write_lines)
    moreover have "\<forall>l\<in>set (ls1 @ ls). \<exists>vs. l = Face vs"
      using ih(2) s1(2) by auto
    ultimately show ?thesis by blast
  qed
qed

lemma vertices_loop_shape:
  assumes "vertices_loop i n res p x z s buf = (r, p', s')"
  shows "\<exists>ls. s' = write_lines ls s \<and> (\<forall>l\<in>set ls. \<exists>a b c. l = Vertex a b c)"
  using assms
proof (induction i n res p x z s buf rule: vertices_loop.induct)
  case (1 i n res p x z s buf)
  show ?case
  proof (cases "res = None \<and> i \<noteq> n")
    case False
    with "1.prems" have "s' = s"
      by (subst (asm) vertices_loop.simps) auto
    then have "s' = write_lines [] s" by simp
    then show ?thesis by fastforce
  next
    case True
    obtain r1 s1 where c: "convert_vertex x z s buf p = (r1, s1)"
      by (cases "convert_vertex x z s buf p")
    with True "1.prems" have l: "vertices_loop (i + 1) n r1 (p + VERTEX_SIZE) x z s1 buf = (r, p', s')"
      by (subst (asm) vertices_loop.simps) simp
    from "1.IH" [OF True c [symmetric] l]
    obtain ls where ih: "s' = write_lines ls s1" "\<forall>l\<in>set ls. \<exists>a b c. l = Vertex a b c"
      by blast
    from c have "s1 = s \<or> (\<exists>a b c. s1 = write_line (Vertex a b c) s)"
      by (auto simp: convert_vertex_def Let_def split: sum.splits)
    then have "\<exists>ls1. s1 = write_lines ls1 s \<and> (\<forall>l\<in>set ls1. \<exists>a b c. l = Vertex a b c)"
    proof
      assume "s1 = s"
      then have "s1 = write_lines [] s" by simp
      then show ?thesis by fastforce
    next
      assume "\<exists>a b c. s1 = write_line (Vertex a b c) s"
      then obtain a b c where "s1 = write_lines [Vertex a b c] s" by auto
      then show ?thesis by fastforce
    qed
    then obtain ls1 where s1: "s1 = write_lines ls1 s" "\<forall>l\<in>set ls1. \<exists>a b c. l = Vertex a b c"
      by blast
    have "s' = write_lines (ls1 @ ls) s"
      by (simp add: ih(1) s1(1))
    moreover have "\<forall>l\<in>set (ls1 @ ls). \<exists>a b c. l = Vertex a b c"
      using ih(2) s1(2) by auto
    ultimately show ?thesis by blast
  qed
qed

subsection \<open>The history of the counters\<close>

lemma counters_le_refl [simp]: "counters_le a a"
  by (simp add: counters_le_def)

lemma counters_le_trans: "counters_le a b \<Longrightarrow> counters_le b c \<Longrightarrow> counters_le a c"
  by (auto simp: counters_le_def)

lemma sorted_wrt_last:
  assumes "sorted_wrt P h" "x \<in> set h"
  shows "x = last h \<or> P x (last h)"
  using assms by (induction h) auto

lemma counters_ok_snoc:
  assumes "counters_ok h" "h \<noteq> []" "counters_le (last h) v" "prev_vert_max v \<le> vert_max v"
  shows "counters_ok (h @ [v])"
proof -
  have "counters_le x v" if "x \<in> set h" for x
    using sorted_wrt_last [of counters_le h x] assms(1,3) that
    by (auto simp: counters_ok_def intro: counters_le_trans)
  with assms show ?thesis
    by (simp add: counters_ok_def sorted_wrt_append)
qed

lemma tracked_prev_le: "tracked B s \<Longrightarrow> prev_vert_max (idx s) \<le> vert_max (idx s)"
  by (metis counters_ok_def last_in_set tracked_def)

lemma tracked_mono: "tracked B s \<Longrightarrow> B \<le> B' \<Longrightarrow> tracked B' s"
  by (simp add: tracked_def)

lemma tracked_store:
  assumes "tracked B s" "counters_le (idx s) v" "prev_vert_max v \<le> vert_max v"
    and "unat (vert_max v) \<le> B'"
  shows "tracked B' (store_idx v s)"
  using assms by (simp add: tracked_def counters_ok_snoc)

lemma tracked_write_line [simp]: "tracked B (write_line l s) = tracked B s"
  by (simp add: tracked_def)

lemma tracked_write_lines [simp]: "tracked B (write_lines ls s) = tracked B s"
  by (simp add: tracked_def)

lemma unat_add_byte_le:
  fixes a :: ulong and b :: byte
  shows "unat (a + ucast b) \<le> unat a + 255"
proof -
  have "unat (a + ucast b) \<le> unat a + unat (ucast b :: ulong)"
    by (simp add: unat_plus_if_size)
  also have "unat (ucast b :: ulong) = unat b"
    by (simp add: unat_ucast_up)
  also have "unat b \<le> 255"
    using unsigned_less [of b, where 'a = nat] by simp
  finally show ?thesis by simp
qed

lemma polygon_index_tracked:
  assumes "tracked B s" "unat (prev_vert_max (idx s)) + 255 \<le> B"
  shows "tracked B (snd (polygon_index s b))"
proof (cases "vert_max (idx s) < prev_vert_max (idx s) + ucast b")
  case False
  with assms(1) show ?thesis by (simp add: polygon_index_def Let_def)
next
  case True
  let ?v = "(idx s)\<lparr>vert_max := prev_vert_max (idx s) + ucast b\<rparr>"
  have "counters_le (idx s) ?v"
    using True by (simp add: counters_le_def)
  moreover have "prev_vert_max ?v \<le> vert_max ?v"
    using True tracked_prev_le [OF assms(1)] by simp
  moreover have "unat (vert_max ?v) \<le> B"
    using unat_add_byte_le [of "prev_vert_max (idx s)" b] assms(2) by simp
  ultimately have "tracked B (store_idx ?v s)"
    using assms(1) by (rule tracked_store [rotated])
  with True show ?thesis by (simp add: polygon_index_def Let_def)
qed

lemma poly_state_tracked:
  assumes "tracked B s" "unat (prev_vert_max (idx s)) + 255 \<le> B"
  shows "tracked B (poly_state s bs)"
  using assms by (induction bs arbitrary: s) (simp_all add: polygon_index_tracked)

subsection \<open>Decoding a block\<close>

lemma unat_offset_loc:
  fixes pos :: uint
  assumes "pos < 16"
  shows "unat (ucast (GROUP_ID_SIZE + pos * BLOCK_OFFSET_SIZE) :: ulong) = 4 + 4 * unat pos"
proof -
  from assms have p: "unat pos < 16"
    by (simp add: word_less_nat_alt)
  then have "unat (pos * 4) = unat pos * 4"
    by (simp add: unat_mult_lem [THEN iffD1])
  with p have "unat (4 + pos * 4) = 4 + unat pos * 4"
    by (simp add: unat_add_lem [THEN iffD1])
  then show ?thesis
    by (simp add: GROUP_ID_SIZE_def BLOCK_OFFSET_SIZE_def unat_ucast_up)
qed

lemma convert_block_unfold:
  assumes "pos < 16" "length buf = 36864"
  shows "convert_block pos x z s buf =
     (if BLOCK_OFFSET_MAX < block_offset buf pos then (Some InvalidBlockOffset, s)
      else
        (let off = block_offset buf pos;
             (res1, p1, s2) = polygons_loop 0 (buf ! unat off) None (off + 4) (block_begin s) buf;
             (res2, p2, s3) = vertices_loop 0 (buf ! (unat off + 1)) res1 p1
                 (x + ucast (pos mod 4) * 2048) (z + ucast (pos div 4) * 2048) s2 buf
         in (res2, block_end s3)))"
proof -
  let ?loc = "ucast (GROUP_ID_SIZE + pos * BLOCK_OFFSET_SIZE) :: ulong"
  have loc: "unat ?loc = 4 + 4 * unat pos"
    using assms(1) by (rule unat_offset_loc)
  from assms(1) have p: "unat pos < 16"
    by (simp add: word_less_nat_alt)
  with loc have u: "unat (?loc + 1) = 5 + 4 * unat pos" "unat (?loc + 2) = 6 + 4 * unat pos"
    "unat (?loc + 3) = 7 + 4 * unat pos"
    by (simp_all add: unat_ptr_add)
  have r: "rd buf ?loc = Inr (buf ! (4 + 4 * unat pos))"
    "rd buf (?loc + 1) = Inr (buf ! (5 + 4 * unat pos))"
    "rd buf (?loc + 2) = Inr (buf ! (6 + 4 * unat pos))"
    "rd buf (?loc + 3) = Inr (buf ! (7 + 4 * unat pos))"
    using p assms(2) by (simp_all add: rd_def loc u)
  show ?thesis
  proof (cases "BLOCK_OFFSET_MAX < block_offset buf pos")
    case True
    then show ?thesis
      by (simp add: convert_block_def r block_offset_def Let_def)
  next
    case False
    then have "unat (block_offset buf pos) \<le> 34560"
      by (simp add: BLOCK_OFFSET_MAX_eq word_le_nat_alt not_less)
    then have h: "rd buf (block_offset buf pos) = Inr (buf ! unat (block_offset buf pos))"
      "rd buf (block_offset buf pos + 1) = Inr (buf ! (unat (block_offset buf pos) + 1))"
      using assms(2) by (simp_all add: rd_def unat_ptr_add)
    from False show ?thesis
      unfolding convert_block_def Let_def r sum.case
      by (simp add: h [unfolded block_offset_def] block_offset_def block_begin_def block_end_def
          BLOCK_HEADER_SIZE_def BLOCKS_PER_ROW_def BLOCK_BOUNDS_eq split_beta)
  qed
qed

lemma convert_block_shape:
  assumes "convert_block pos x z s buf = (r, s')"
  shows "s' = s \<or> (\<exists>bs ls. s' = block_end (write_lines ls (poly_state (block_begin s) bs)))"
proof (cases "s' = s")
  case True
  then show ?thesis by simp
next
  case False
  with assms obtain np nv p0 x' z' res1 p1 s2 res2 p2 s3 where
    l: "polygons_loop 0 np None p0 (block_begin s) buf = (res1, p1, s2)"
       "vertices_loop 0 nv res1 p1 x' z' s2 buf = (res2, p2, s3)"
       "s' = block_end s3"
    unfolding convert_block_def Let_def block_begin_def block_end_def
    by (auto split: sum.splits if_splits prod.splits)
  from polygons_loop_shape [OF l(1)] obtain bs ls1
    where s2: "s2 = write_lines ls1 (poly_state (block_begin s) bs)" by blast
  from vertices_loop_shape [OF l(2)] obtain ls2
    where s3: "s3 = write_lines ls2 s2" by blast
  have "s' = block_end (write_lines (ls1 @ ls2) (poly_state (block_begin s) bs))"
    by (simp add: l(3) s3 s2)
  then show ?thesis by blast
qed

lemma block_begin_tracked:
  assumes "tracked B s"
  shows "tracked B (block_begin s)"
    and "prev_vert_max (idx (block_begin s)) = vert_max (idx s)"
proof -
  let ?v = "(idx s)\<lparr>prev_vert_max := vert_max (idx s)\<rparr>"
  have "counters_le (idx s) ?v"
    using tracked_prev_le [OF assms] by (simp add: counters_le_def)
  moreover have "prev_vert_max ?v \<le> vert_max ?v" by simp
  moreover have "unat (vert_max ?v) \<le> B"
    using assms by (simp add: tracked_def)
  ultimately show "tracked B (block_begin s)"
    unfolding block_begin_def using assms by (rule tracked_store [rotated])
  show "prev_vert_max (idx (block_begin s)) = vert_max (idx s)"
    by (simp add: block_begin_def)
qed

lemma block_end_tracked:
  assumes "tracked B s" "B + 1 < 2 ^ 64"
  shows "tracked (B + 1) (block_end s)"
    and "unat (vert_max (idx (block_end s))) = unat (vert_max (idx s)) + 1"
proof -
  let ?v = "(idx s)\<lparr>vert_max := vert_max (idx s) + 1\<rparr>"
  from assms have b: "unat (vert_max (idx s)) + 1 < 2 ^ 64"
    by (simp add: tracked_def)
  then have u: "unat (vert_max (idx s) + 1) = unat (vert_max (idx s)) + 1"
    by (simp add: unat_ptr_add)
  then have le: "vert_max (idx s) \<le> vert_max (idx s) + 1"
    by (simp add: word_le_nat_alt)
  then have "counters_le (idx s) ?v"
    by (simp add: counters_le_def)
  moreover have "prev_vert_max ?v \<le> vert_max ?v"
    using tracked_prev_le [OF assms(1)] le by simp
  moreover have "unat (vert_max ?v) \<le> B + 1"
    using assms(1) u by (simp add: tracked_def)
  ultimately show "tracked (B + 1) (block_end s)"
    unfolding block_end_def using assms(1) by (rule tracked_store [rotated])
  show "unat (vert_max (idx (block_end s))) = unat (vert_max (idx s)) + 1"
    using u by (simp add: block_end_def)
qed

lemma convert_block_tracked:
  assumes "convert_block pos x z s buf = (r, s')" "tracked B s" "B + 256 < 2 ^ 64"
  shows "tracked (B + 256) s'"
  using convert_block_shape [OF assms(1)]
proof
  assume "s' = s"
  with assms(2) show ?thesis by (simp add: tracked_mono)
next
  assume "\<exists>bs ls. s' = block_end (write_lines ls (poly_state (block_begin s) bs))"
  then obtain bs ls where s': "s' = block_end (write_lines ls (poly_state (block_begin s) bs))"
    by blast
  note bb = block_begin_tracked [OF assms(2)]
  from assms(2) have "unat (vert_max (idx s)) \<le> B"
    by (simp add: tracked_def)
  with bb have "tracked (B + 255) (block_begin s)"
    "unat (prev_vert_max (idx (block_begin s))) + 255 \<le> B + 255"
    by (simp_all add: tracked_mono)
  then have "tracked (B + 255) (poly_state (block_begin s) bs)"
    by (rule poly_state_tracked)
  then have "tracked (B + 255) (write_lines ls (poly_state (block_begin s) bs))"
    by simp
  from block_end_tracked(1) [OF this] assms(3) show ?thesis
    by (simp add: s' add.commute)
qed

lemma blocks_loop_stop: "res \<noteq> None \<Longrightarrow> blocks_loop i res x z s buf = (res, s)"
  by (subst blocks_loop.simps) auto

lemma blocks_loop_done: "blocks_loop 16 res x z s buf = (res, s)"
  by (subst blocks_loop.simps) (simp add: BLOCKS_PER_SEGMENT_def)

lemma blocks_loop_step:
  "i \<noteq> 16 \<Longrightarrow> blocks_loop i None x z s buf =
     (case convert_block i x z s buf of (res', s') \<Rightarrow> blocks_loop (i + 1) res' x z s' buf)"
  by (subst blocks_loop.simps) (simp add: BLOCKS_PER_SEGMENT_def)

lemma blocks_loop_tracked:
  assumes "blocks_loop i res x z s buf = (r, s')" "tracked B s"
    and "unat (16 - i) = k" "B + 256 * k < 2 ^ 64"
  shows "tracked (B + 256 * k) s'"
  using assms
proof (induction k arbitrary: i res s B)
  case 0
  then have "i = 16" by (simp add: unat_0_iff)
  with 0 show ?case by (simp add: blocks_loop_done)
next
  case (Suc k)
  from Suc.prems(3) have i: "i \<noteq> 16" "unat (16 - (i + 1)) = k"
    by (rule unat_diff_Suc)+
  show ?case
  proof (cases res)
    case (Some e)
    with Suc.prems(1) have "s' = s" by (simp add: blocks_loop_stop)
    with Suc.prems(2) show ?thesis by (simp add: tracked_mono)
  next
    case None
    obtain r1 s1 where c: "convert_block i x z s buf = (r1, s1)"
      by (cases "convert_block i x z s buf")
    with Suc.prems(1) None i have l: "blocks_loop (i + 1) r1 x z s1 buf = (r, s')"
      by (simp add: blocks_loop_step)
    from Suc.prems(4) have "B + 256 < 2 ^ 64" by simp
    from convert_block_tracked [OF c Suc.prems(2) this]
    have t: "tracked (B + 256) s1" .
    from Suc.prems(4) have "B + 256 + 256 * k < 2 ^ 64" by simp
    from Suc.IH [OF l t i(2) this] show ?thesis
      by (simp add: add.assoc)
  qed
qed

lemma convert_segment_tracked:
  assumes "convert_segment pos s inp = (r, s', inp')" "tracked B s" "B + 4096 < 2 ^ 64"
  shows "tracked (B + 4096) s'"
proof (cases "fread_segment inp")
  case None
  with assms(1) have "s' = s" by (simp add: convert_segment_def)
  with assms(2) show ?thesis by (simp add: tracked_mono)
next
  case (Some a)
  then obtain buf inp1 where f: "fread_segment inp = Some (buf, inp1)"
    by (cases a) simp
  with assms(1) obtain x z where l: "blocks_loop 0 None x z s buf = (r, s')"
    by (auto simp: convert_segment_def Let_def split: prod.splits)
  have "unat (16 - 0 :: uint) = 16" by simp
  from blocks_loop_tracked [OF l assms(2) this] assms(3) show ?thesis by simp
qed

lemma segments_loop_stop: "res \<noteq> None \<Longrightarrow> segments_loop i endi j res s inp = (res, s, inp)"
  by (subst segments_loop.simps) auto

lemma segments_loop_done: "segments_loop endi endi j res s inp = (res, s, inp)"
  by (subst segments_loop.simps) simp

lemma segments_loop_step:
  "i \<noteq> endi \<Longrightarrow> segments_loop i endi j None s inp =
     (case convert_segment j s inp of
        (res', s', inp') \<Rightarrow> segments_loop (i + 1) endi (j + 1) res' s' inp')"
  by (subst segments_loop.simps) simp

lemma segments_loop_tracked:
  assumes "segments_loop i endi j res s inp = (r, s', inp')" "tracked B s"
    and "unat (endi - i) = k" "B + 4096 * k < 2 ^ 64"
  shows "tracked (B + 4096 * k) s'"
  using assms
proof (induction k arbitrary: i j res s inp B)
  case 0
  then have "i = endi" by (simp add: unat_0_iff)
  with 0 show ?case by (simp add: segments_loop_done)
next
  case (Suc k)
  from Suc.prems(3) have i: "i \<noteq> endi" "unat (endi - (i + 1)) = k"
    by (rule unat_diff_Suc)+
  show ?case
  proof (cases res)
    case (Some e)
    with Suc.prems(1) have "s' = s" by (simp add: segments_loop_stop)
    with Suc.prems(2) show ?thesis by (simp add: tracked_mono)
  next
    case None
    obtain r1 s1 inp1 where c: "convert_segment j s inp = (r1, s1, inp1)"
      by (cases "convert_segment j s inp")
    with Suc.prems(1) None i have l: "segments_loop (i + 1) endi (j + 1) r1 s1 inp1 = (r, s', inp')"
      by (simp add: segments_loop_step)
    from Suc.prems(4) have "B + 4096 < 2 ^ 64" by simp
    from convert_segment_tracked [OF c Suc.prems(2) this]
    have t: "tracked (B + 4096) s1" .
    from Suc.prems(4) have "B + 4096 + 4096 * k < 2 ^ 64" by simp
    from Suc.IH [OF l t i(2) this] show ?thesis
      by (simp add: add.assoc)
  qed
qed

lemma init_state_tracked: "tracked 1 (init_state outp)"
  by (simp add: tracked_def init_state_def counters_ok_def)

lemma convert_to_obj_tracked:
  assumes "convert_to_obj start endi inp outp mem = (r, s, inp')"
  shows "tracked (1 + 4096 * 2 ^ 32) s"
proof (cases "\<exists>inp1. fseek_set inp (ucast start * SEGMENT_SIZE) = Some inp1 \<and> mem")
  case False
  with assms have "s = init_state outp"
    by (auto simp: convert_to_obj_def split: option.splits if_splits)
  with tracked_mono [OF init_state_tracked, of "1 + 4096 * 2 ^ 32" outp] show ?thesis
    by simp
next
  case True
  with assms obtain j inp1 where
    l: "segments_loop start (endi + 1) j None (init_state outp) inp1 = (r, s, inp')"
    by (auto simp: convert_to_obj_def Let_def)
  define k where "k = unat (endi + 1 - start)"
  have "k < 2 ^ 32"
    unfolding k_def using unsigned_less [of "endi + 1 - start", where 'a = nat] by simp
  then have b: "1 + 4096 * k < 2 ^ 64" by simp
  from segments_loop_tracked [OF l init_state_tracked k_def [symmetric] b]
  have "tracked (1 + 4096 * k) s" .
  then show ?thesis
    using \<open>k < 2 ^ 32\<close> by (auto intro: tracked_mono)
qed

subsection \<open>When the records lie inside the buffer and the sink has room\<close>

lemma write_line_room:
  "0 < oroom (out s) \<Longrightarrow> \<not> oerr (out s) \<Longrightarrow> ferror_status (write_line l s) = None"
  "0 < oroom (out s) \<Longrightarrow> oroom (out (write_line l s)) = oroom (out s) - 1"
  "0 < oroom (out s) \<Longrightarrow> oerr (out (write_line l s)) = oerr (out s)"
  by (simp_all add: ferror_status_def fput_line_simps)

lemma polygons_loop_run:
  assumes "unat (n - i) = k" "unat p + 16 * k \<le> length buf + 13" "unat p + 16 * k < 2 ^ 64"
    and "k \<le> oroom (out s)" "\<not> oerr (out s)"
  shows "polygons_loop i n None p s buf =
     (None, p + 16 * of_nat k,
      write_lines (map (\<lambda>j. face_line (prev_vert_max (idx s)) buf (unat p + 16 * j)) [0..<k])
        (poly_state s (index_bytes buf (unat p) k)))"
  using assms
proof (induction k arbitrary: i p s)
  case 0
  then have "i = n" by (simp add: unat_0_iff)
  then show ?case by (simp add: polygons_loop_done)
next
  case (Suc k)
  from Suc.prems(1) have i: "i \<noteq> n" "unat (n - (i + 1)) = k"
    by (rule unat_diff_Suc)+
  let ?s1 = "write_line (face_line (prev_vert_max (idx s)) buf (unat p))
               (poly_state s [buf ! unat p, buf ! (unat p + 1), buf ! (unat p + 2)])"
  from Suc.prems have c: "convert_polygon s buf p = (None, ?s1)"
    by (simp add: convert_polygon_inside Let_def write_line_room)
  from Suc.prems(3) have u: "unat (p + 16) = unat p + 16"
    by (simp add: unat_ptr_add)
  have "polygons_loop (i + 1) n None (p + 16) ?s1 buf =
     (None, p + 16 + 16 * of_nat k,
      write_lines (map (\<lambda>j. face_line (prev_vert_max (idx ?s1)) buf (unat (p + 16) + 16 * j)) [0..<k])
        (poly_state ?s1 (index_bytes buf (unat (p + 16)) k)))"
    using Suc.prems i(2) u by (intro Suc.IH) (simp_all add: fput_line_simps)
  then show ?case
    using i(1) c u
    by (simp add: polygons_loop_step POLYGON_SIZE_def index_bytes_Suc map_upt_Suc
        poly_state_write_line add.assoc distrib_left del: upt_Suc)
qed

lemma vertices_loop_run:
  assumes "unat (n - i) = k" "unat p + 8 * k \<le> length buf + 2" "unat p + 8 * k < 2 ^ 64"
    and "k \<le> oroom (out s)" "\<not> oerr (out s)"
  shows "vertices_loop i n None p x z s buf =
     (None, p + 8 * of_nat k,
      write_lines (map (\<lambda>j. vertex_line x z buf (unat p + 8 * j)) [0..<k]) s)"
  using assms
proof (induction k arbitrary: i p s)
  case 0
  then have "i = n" by (simp add: unat_0_iff)
  then show ?case by (simp add: vertices_loop_done)
next
  case (Suc k)
  from Suc.prems(1) have i: "i \<noteq> n" "unat (n - (i + 1)) = k"
    by (rule unat_diff_Suc)+
  let ?s1 = "write_line (vertex_line x z buf (unat p)) s"
  from Suc.prems have c: "convert_vertex x z s buf p = (None, ?s1)"
    by (simp add: convert_vertex_inside Let_def write_line_room)
  from Suc.prems(3) have u: "unat (p + 8) = unat p + 8"
    by (simp add: unat_ptr_add)
  have "vertices_loop (i + 1) n None (p + 8) x z ?s1 buf =
     (None, p + 8 + 8 * of_nat k,
      write_lines (map (\<lambda>j. vertex_line x z buf (unat (p + 8) + 8 * j)) [0..<k]) ?s1)"
    using Suc.prems i(2) u by (intro Suc.IH) (simp_all add: fput_line_simps)
  then show ?case
    using i(1) c u
    by (simp add: vertices_loop_step VERTEX_SIZE_def map_upt_Suc add.assoc distrib_left del: upt_Suc)
qed

lemma write_lines_out:
  assumes "length ls \<le> oroom (out s)"
  shows "out (write_lines ls s) =
     (out s)\<lparr>olines := olines (out s) @ ls, oroom := oroom (out s) - length ls\<rparr>"
  using assms
proof (induction ls arbitrary: s)
  case Nil
  then show ?case by simp
next
  case (Cons l ls)
  then show ?case by (simp add: fput_line_def)
qed

lemma block_begin_simps [simp]:
  "out (block_begin s) = out s"
  "prev_vert_max (idx (block_begin s)) = vert_max (idx s)"
  "vert_max (idx (block_begin s)) = vert_max (idx s)"
  "hist (block_begin s) = hist s @ [\<lparr>vert_max = vert_max (idx s), prev_vert_max = vert_max (idx s)\<rparr>]"
  by (simp_all add: block_begin_def)

lemma block_end_simps [simp]:
  "out (block_end s) = out s"
  "prev_vert_max (idx (block_end s)) = prev_vert_max (idx s)"
  "vert_max (idx (block_end s)) = vert_max (idx s) + 1"
  "hist (block_end s) = hist s @ [idx (block_end s)]"
  by (simp_all add: block_end_def)

lemma unat_byte_diff_0 [simp]: "unat (n - 0 :: byte) = unat n"
  by simp

lemma convert_block_None:
  assumes "convert_block pos x z s buf = (None, s')" "pos < 16" "length buf = 36864"
  defines "off \<equiv> unat (block_offset buf pos)"
  defines "np \<equiv> unat (buf ! off)" and "nv \<equiv> unat (buf ! (off + 1))"
  shows "s' = block_result (x + ucast (pos mod 4) * 2048) (z + ucast (pos div 4) * 2048) s buf off np nv"
    and "off \<le> 34560" and "np + nv \<le> oroom (out s)"
    and "0 < np \<Longrightarrow> off + 4 + 16 * np \<le> 36864 + 13"
    and "0 < nv \<Longrightarrow> off + 4 + 16 * np + 8 * nv \<le> 36864 + 2"
    and "0 < np + nv \<Longrightarrow> \<not> oerr (out s)"
proof -
  let ?x = "x + ucast (pos mod 4) * 2048" and ?z = "z + ucast (pos div 4) * 2048"
  let ?o = "block_offset buf pos"
  from assms(1) have ok: "\<not> BLOCK_OFFSET_MAX < ?o"
    by (auto simp: convert_block_unfold [OF assms(2,3)])
  then show off: "off \<le> 34560"
    by (simp add: off_def BLOCK_OFFSET_MAX_eq word_le_nat_alt not_less)
  then have o4: "unat (?o + 4) = off + 4"
    by (simp add: off_def unat_ptr_add)
  obtain res1 p1 s2 where l1:
    "polygons_loop 0 (buf ! off) None (?o + 4) (block_begin s) buf = (res1, p1, s2)"
    by (cases "polygons_loop 0 (buf ! off) None (?o + 4) (block_begin s) buf")
  obtain res2 p2 s3 where l2:
    "vertices_loop 0 (buf ! (off + 1)) res1 p1 ?x ?z s2 buf = (res2, p2, s3)"
    by (cases "vertices_loop 0 (buf ! (off + 1)) res1 p1 ?x ?z s2 buf")
  from assms(1) ok l1 l2 have r: "res2 = None" "s' = block_end s3"
    by (simp_all add: convert_block_unfold [OF assms(2,3)] Let_def off_def)
  have res1: "res1 = None"
  proof (rule ccontr)
    assume "res1 \<noteq> None"
    with l2 r(1) show False by (simp add: vertices_loop_stop)
  qed
  have np: "unat (buf ! off - 0) = np" by (simp add: np_def)
  have nv: "unat (buf ! (off + 1) - 0) = nv" by (simp add: nv_def)
  have npb: "np < 256"
    unfolding np_def using unsigned_less [of "buf ! off", where 'a = nat] by simp
  have nvb: "nv < 256"
    unfolding nv_def using unsigned_less [of "buf ! (off + 1)", where 'a = nat] by simp
  from off npb o4 have b1: "unat (?o + 4) + 16 * np < 2 ^ 64" by simp
  note pl = polygons_loop_None [OF l1 [unfolded res1] np b1]
  from pl o4 have p1: "unat p1 = off + 4 + 16 * np" by simp
  with off npb nvb have b2: "unat p1 + 8 * nv < 2 ^ 64" by simp
  note vl = vertices_loop_None [OF l2 [unfolded res1 r(1)] nv b2]
  from pl vl show "s' = block_result ?x ?z s buf off np nv"
    by (simp add: r(2) block_result_def o4 p1)
  from pl vl have "np \<le> oroom (out s)" "nv \<le> oroom (out s) - np"
    by (simp_all add: write_lines_out)
  then show "np + nv \<le> oroom (out s)"
    by linarith
  show "off + 4 + 16 * np \<le> 36864 + 13" if "0 < np"
    using pl that o4 assms(3) by simp
  show "off + 4 + 16 * np + 8 * nv \<le> 36864 + 2" if "0 < nv"
    using vl that p1 assms(3) by simp
  show "\<not> oerr (out s)" if "0 < np + nv"
  proof (cases "0 < np")
    case True
    with pl show ?thesis by simp
  next
    case False
    with that have "0 < nv" by simp
    with vl False pl show ?thesis by simp
  qed
qed

lemma convert_block_run:
  assumes "pos < 16" "length buf = 36864" "block_offset buf pos \<le> BLOCK_OFFSET_MAX"
    and "off = unat (block_offset buf pos)" "np = unat (buf ! off)" "nv = unat (buf ! (off + 1))"
    and "off + 4 + 16 * np + 8 * nv \<le> 36864"
    and "np + nv \<le> oroom (out s)" "\<not> oerr (out s)"
  shows "convert_block pos x z s buf =
     (None, block_result (x + ucast (pos mod 4) * 2048) (z + ucast (pos div 4) * 2048) s buf off np nv)"
proof -
  let ?x = "x + ucast (pos mod 4) * 2048" and ?z = "z + ucast (pos div 4) * 2048"
  let ?o = "block_offset buf pos"
  from assms(3,4) have off: "off \<le> 34560"
    by (simp add: BLOCK_OFFSET_MAX_eq word_le_nat_alt)
  then have o4: "unat (?o + 4) = off + 4"
    by (simp add: assms(4) unat_ptr_add)
  have np: "unat (buf ! off - 0) = np" by (simp add: assms(5))
  have nv: "unat (buf ! (off + 1) - 0) = nv" by (simp add: assms(6))
  let ?fs = "map (\<lambda>j. face_line (vert_max (idx s)) buf (off + 4 + 16 * j)) [0..<np]"
  let ?t = "write_lines ?fs (poly_state (block_begin s) (index_bytes buf (off + 4) np))"
  have l1: "polygons_loop 0 (buf ! off) None (?o + 4) (block_begin s) buf =
      (None, ?o + 4 + 16 * of_nat np, ?t)"
    using polygons_loop_run [OF np, of "?o + 4" buf "block_begin s"] assms(2,7,8,9) o4
    by simp
  have "unat (?o + 4 + 16 * of_nat np) = off + 4 + 16 * np"
    using polygons_loop_None [OF l1 np] o4 assms(7) by simp
  then have p1: "unat (?o + 4 + 16 * of_nat np) = off + 4 + 16 * np" .
  have room: "nv \<le> oroom (out ?t)" "\<not> oerr (out ?t)"
    using assms(8,9) by (simp_all add: write_lines_out)
  have l2: "vertices_loop 0 (buf ! (off + 1)) None (?o + 4 + 16 * of_nat np) ?x ?z ?t buf =
      (None, ?o + 4 + 16 * of_nat np + 8 * of_nat nv,
       write_lines (map (\<lambda>j. vertex_line ?x ?z buf (off + 4 + 16 * np + 8 * j)) [0..<nv]) ?t)"
    using vertices_loop_run [OF nv, of "?o + 4 + 16 * of_nat np" buf ?t ?x ?z] assms(2,7) room
    by (simp add: p1)
  from assms(3) have "\<not> BLOCK_OFFSET_MAX < ?o" by simp
  with l1 l2 show ?thesis
    by (simp add: convert_block_unfold [OF assms(1,2)] Let_def assms(4) [symmetric]
        block_result_def)
qed

subsection \<open>Little-endian values and the sign extension of the offset\<close>

lemma byte_or_push:
  fixes x y :: uint
  assumes "unat x < 2 ^ k" "k < 32"
  shows "x OR push_bit k y = x + push_bit k y"
proof -
  have "take_bit k x = x"
    using assms by (simp add: take_bit_word_eq_self word_less_nat_alt unsigned_take_bit_eq
        take_bit_nat_eq_self word_unat_eq_iff)
  then have "\<not> bit x n" if "k \<le> n" for n
    using that by (metis bit_take_bit_iff not_le)
  then have "x AND push_bit k y = 0"
    by (auto simp: bit_eq_iff bit_simps)
  then show ?thesis
    by (simp add: disjunctive_add_eq_or)
qed

lemma unat_byte_less: "unat (b :: byte) < 256"
  using unsigned_less [of b, where 'a = nat] by simp

lemma unat_le16: "unat (le16 lo hi) = unat lo + 256 * unat hi"
proof -
  have lo: "unat (ucast lo :: uint) = unat lo" and hi: "unat (ucast hi :: uint) = unat hi"
    by (simp_all add: unat_ucast_up)
  have "unat (push_bit 8 (ucast hi) :: uint) = 256 * unat hi"
    using unat_byte_less [of hi] by (simp add: push_bit_eq_mult unat_mult_lem [THEN iffD1] hi)
  moreover have "le16 lo hi = ucast lo + push_bit 8 (ucast hi)"
    unfolding le16_def using unat_byte_less [of lo] by (intro byte_or_push) (simp_all add: lo)
  ultimately show ?thesis
    using unat_byte_less [of lo] unat_byte_less [of hi]
    by (simp add: unat_add_lem [THEN iffD1] lo)
qed

lemma unat_le32:
  "unat (le32 b0 b1 b2 b3) = unat b0 + 256 * unat b1 + 65536 * unat b2 + 16777216 * unat b3"
proof -
  note b = unat_byte_less [of b0] unat_byte_less [of b1] unat_byte_less [of b2] unat_byte_less [of b3]
  have c: "unat (ucast b0 :: uint) = unat b0" "unat (ucast b1 :: uint) = unat b1"
    "unat (ucast b2 :: uint) = unat b2" "unat (ucast b3 :: uint) = unat b3"
    by (simp_all add: unat_ucast_up)
  have p1: "unat (push_bit 8 (ucast b1) :: uint) = 256 * unat b1"
    using b by (simp add: push_bit_eq_mult unat_mult_lem [THEN iffD1] c)
  have p2: "unat (push_bit 16 (ucast b2) :: uint) = 65536 * unat b2"
    using b by (simp add: push_bit_eq_mult unat_mult_lem [THEN iffD1] c)
  have p3: "unat (push_bit 24 (ucast b3) :: uint) = 16777216 * unat b3"
    using b by (simp add: push_bit_eq_mult unat_mult_lem [THEN iffD1] c)
  have s1: "(ucast b0 :: uint) OR push_bit 8 (ucast b1) = ucast b0 + push_bit 8 (ucast b1)"
    using b by (intro byte_or_push) (simp_all add: c)
  have u1: "unat (ucast b0 + push_bit 8 (ucast b1) :: uint) = unat b0 + 256 * unat b1"
    using b by (simp add: unat_add_lem [THEN iffD1] c p1)
  have s2: "(ucast b0 + push_bit 8 (ucast b1) :: uint) OR push_bit 16 (ucast b2)
      = ucast b0 + push_bit 8 (ucast b1) + push_bit 16 (ucast b2)"
    using b by (intro byte_or_push) (simp_all add: u1)
  have u2: "unat (ucast b0 + push_bit 8 (ucast b1) + push_bit 16 (ucast b2) :: uint)
      = unat b0 + 256 * unat b1 + 65536 * unat b2"
    using b by (simp add: unat_add_lem [THEN iffD1] u1 p2)
  have s3: "(ucast b0 + push_bit 8 (ucast b1) + push_bit 16 (ucast b2) :: uint) OR push_bit 24 (ucast b3)
      = ucast b0 + push_bit 8 (ucast b1) + push_bit 16 (ucast b2) + push_bit 24 (ucast b3)"
    using b by (intro byte_or_push) (simp_all add: u2)
  have "unat (ucast b0 + push_bit 8 (ucast b1) + push_bit 16 (ucast b2) + push_bit 24 (ucast b3) :: uint)
      = unat b0 + 256 * unat b1 + 65536 * unat b2 + 16777216 * unat b3"
    using b by (simp add: unat_add_lem [THEN iffD1] u2 p3)
  then show ?thesis
    by (simp add: le32_def or.assoc [symmetric] s1 s2 s3)
qed

lemma sint_uint32:
  fixes w :: uint
  shows "sint w = (if uint w < 2 ^ 31 then uint w else uint w - 2 ^ 32)"
proof -
  have u: "uint w < 2 ^ 32" "0 \<le> uint w"
    using unsigned_less [of w, where 'a = int] by simp_all
  show ?thesis
  proof (cases "uint w < 2 ^ 31")
    case True
    have "- (2 ^ 31) \<le> uint w"
      by (rule order_trans [OF _ u(2)]) simp
    then have "signed_take_bit 31 (uint w) = uint w"
      using True by (rule signed_take_bit_int_eq_self)
    with True show ?thesis by (simp add: sint_uint)
  next
    case False
    have "take_bit 32 (uint w) = take_bit 32 (uint w - 2 ^ 32)"
      by (simp add: take_bit_eq_mod)
    then have "signed_take_bit 31 (uint w) = signed_take_bit 31 (uint w - 2 ^ 32)"
      by (simp add: signed_take_bit_eq_iff_take_bit_eq)
    also have "\<dots> = uint w - 2 ^ 32"
    proof (rule signed_take_bit_int_eq_self)
      show "- (2 ^ 31) \<le> uint w - 2 ^ 32"
        using False by simp
      have "uint w - 2 ^ 32 < 0"
        using u(1) by simp
      then show "uint w - 2 ^ 32 < 2 ^ 31"
        by simp
    qed
    finally show ?thesis using False by (simp add: sint_uint)
  qed
qed

lemma unat_scast_uint:
  fixes w :: uint
  shows "unat (scast w :: ulong) = (if unat w < 2 ^ 31 then unat w else unat w + (2 ^ 64 - 2 ^ 32))"
proof -
  have u: "uint w < 2 ^ 32" "0 \<le> uint w"
    using unsigned_less [of w, where 'a = int] by simp_all
  have m: "uint (scast w :: ulong) = sint w mod 2 ^ 64"
    unfolding scast_eq uint_word_of_int by simp
  have "nat (uint w) < nat (2 ^ 31) \<longleftrightarrow> uint w < 2 ^ 31"
    by (rule nat_less_eq_zless) (rule u(2))
  then have c: "unat w < 2 ^ 31 \<longleftrightarrow> uint w < 2 ^ 31"
    by (simp only: unat_eq_nat_uint) simp
  show ?thesis
  proof (cases "uint w < 2 ^ 31")
    case True
    then have "sint w = uint w"
      by (simp add: sint_uint32)
    moreover have "uint w mod 2 ^ 64 = uint w"
    proof (rule mod_pos_pos_trivial)
      show "0 \<le> uint w" by (rule u(2))
      show "uint w < 2 ^ 64"
        by (rule less_trans [OF u(1)]) simp
    qed
    ultimately have "uint (scast w :: ulong) = uint w"
      using m by simp
    then have "nat (uint (scast w :: ulong)) = nat (uint w)"
      by (rule arg_cong)
    then have "unat (scast w :: ulong) = unat w"
      by (simp only: unat_eq_nat_uint)
    with True c show ?thesis by simp
  next
    case False
    then have "sint w = uint w - 2 ^ 32"
      by (simp add: sint_uint32)
    moreover have "(uint w - 2 ^ 32) mod 2 ^ 64 = (uint w - 2 ^ 32 + 2 ^ 64) mod 2 ^ 64"
      by (simp only: mod_add_self2)
    moreover have "(uint w - 2 ^ 32 + 2 ^ 64) mod 2 ^ 64 = uint w - 2 ^ 32 + 2 ^ 64"
    proof (rule mod_pos_pos_trivial)
      show "0 \<le> uint w - 2 ^ 32 + 2 ^ 64"
        using u(2) by simp
      show "uint w - 2 ^ 32 + 2 ^ 64 < 2 ^ 64"
        using u(1) by simp
    qed
    ultimately have "uint (scast w :: ulong) = uint w + 18446744069414584320"
      using m by simp
    then have "nat (uint (scast w :: ulong)) = nat (uint w + 18446744069414584320)"
      by (rule arg_cong)
    also have "\<dots> = nat (uint w) + 18446744069414584320"
      using u(2) by (simp add: nat_add_distrib)
    finally have "unat (scast w :: ulong) = unat w + 18446744069414584320"
      by (simp only: unat_eq_nat_uint)
    with False c show ?thesis by simp
  qed
qed

lemma block_offset_rejected:
  "BLOCK_OFFSET_MAX < (scast w :: ulong) \<longleftrightarrow> 34560 < unat w" for w :: uint
  by (simp add: BLOCK_OFFSET_MAX_eq word_less_nat_alt unat_scast_uint)

subsection \<open>Lines and counters as numbers\<close>

lemma limit_within_bounds_unat:
  fixes v :: uint
  assumes "unat v \<le> 65535"
  shows "unat (limit_within_bounds v) = fold_coord (unat v)"
proof (cases "unat v \<le> 2048")
  case True
  then have "(ucast v :: ulong) \<le> 2048"
    by (simp add: word_le_nat_alt unat_ucast_up)
  with True show ?thesis
    by (simp add: limit_within_bounds_def BLOCK_BOUNDS_eq fold_coord_def)
next
  case False
  then have "\<not> (ucast v :: ulong) \<le> 2048"
    by (simp add: word_le_nat_alt unat_ucast_up)
  moreover from False assms have "0 < v" "v \<le> 65535"
    by (simp_all add: word_le_nat_alt word_less_nat_alt)
  ultimately show ?thesis
    using False by (simp add: limit_within_bounds_def BLOCK_BOUNDS_eq fold_coord_def
        neg_masked_16 unat_neg_16)
qed

lemma unat_fold_le16:
  "unat (limit_within_bounds (le16 lo hi)) = fold_coord (unat lo + 256 * unat hi)"
proof -
  have "unat (le16 lo hi) \<le> 65535"
    using unat_byte_less [of lo] unat_byte_less [of hi] by (simp add: unat_le16)
  then show ?thesis
    by (simp add: limit_within_bounds_unat unat_le16)
qed

lemma fold_coord_le: "v \<le> 65535 \<Longrightarrow> fold_coord v \<le> 65535"
  by (auto simp: fold_coord_def)

lemma raw16_le: "raw16 buf q \<le> 65535"
  using unat_byte_less [of "buf ! q"] unat_byte_less [of "buf ! (q + 1)"]
  by (simp add: raw16_def)

lemma unat_add_folded:
  fixes x :: ulong
  assumes "unat x + 65535 < 2 ^ 64"
  shows "unat (x + ucast (limit_within_bounds (le16 lo hi))) = unat x + fold_coord (unat lo + 256 * unat hi)"
proof -
  have "fold_coord (unat lo + 256 * unat hi) \<le> 65535"
    using unat_byte_less [of lo] unat_byte_less [of hi] by (intro fold_coord_le) simp
  moreover have "unat (ucast (limit_within_bounds (le16 lo hi)) :: ulong)
      = fold_coord (unat lo + 256 * unat hi)"
    by (simp add: unat_ucast_up unat_fold_le16)
  ultimately show ?thesis
    using assms by (simp add: unat_ptr_add)
qed

lemma vertex_line_nat:
  assumes "unat x + 65535 < 2 ^ 64" "unat z + 65535 < 2 ^ 64"
  shows "vertex_line x z buf q =
     Vertex (unat x + fold_coord (raw16 buf q)) (fold_coord (raw16 buf (q + 2)))
            (unat z + fold_coord (raw16 buf (q + 4)))"
proof -
  have "q + 2 + 1 = q + 3" "q + 4 + 1 = q + 5"
    by simp_all
  then have "raw16 buf (q + 2) = unat (buf ! (q + 2)) + 256 * unat (buf ! (q + 3))"
    "raw16 buf (q + 4) = unat (buf ! (q + 4)) + 256 * unat (buf ! (q + 5))"
    by (simp_all only: raw16_def)
  then show ?thesis
    using assms by (simp add: vertex_line_def unat_add_folded unat_fold_le16) (simp add: raw16_def)
qed

lemma unat_add_byte:
  fixes a :: ulong and b :: byte
  assumes "unat a + 255 < 2 ^ 64"
  shows "unat (a + ucast b) = unat a + unat b"
  using assms unat_byte_less [of b] by (simp add: unat_ptr_add unat_ucast_up)

lemma face_line_nat:
  assumes "unat prev + 255 < 2 ^ 64"
  shows "face_line prev buf q =
     Face [unat prev + unat (buf ! q), unat prev + unat (buf ! (q + 1)), unat prev + unat (buf ! (q + 2))]"
  using assms by (simp add: face_line_def unat_add_byte)

lemma unat_block_origin:
  fixes pos :: uint and x :: ulong
  assumes "unat x + 3 * 2048 < 2 ^ 64" "pos < 16"
  shows "unat (x + ucast (pos mod 4) * 2048) = unat x + (unat pos mod 4) * 2048"
    and "unat (x + ucast (pos div 4) * 2048) = unat x + (unat pos div 4) * 2048"
proof -
  from assms(2) have p: "unat pos < 16"
    by (simp add: word_less_nat_alt)
  have m: "unat (ucast (pos mod 4) :: ulong) = unat pos mod 4"
    by (simp add: unat_ucast_up unat_mod_distrib)
  have d: "unat (ucast (pos div 4) :: ulong) = unat pos div 4"
    by (simp add: unat_ucast_up unat_div_distrib)
  have "unat pos mod 4 < 4" by simp
  then have m2: "unat (ucast (pos mod 4) * 2048 :: ulong) = (unat pos mod 4) * 2048"
    by (simp add: unat_mult_lem [THEN iffD1] m)
  from p have "unat pos div 4 < 4" by simp
  then have d2: "unat (ucast (pos div 4) * 2048 :: ulong) = (unat pos div 4) * 2048"
    by (simp add: unat_mult_lem [THEN iffD1] d)
  from assms(1) m2 show "unat (x + ucast (pos mod 4) * 2048) = unat x + (unat pos mod 4) * 2048"
    by (simp add: unat_ptr_add)
  from \<open>unat pos div 4 < 4\<close> have "unat pos div 4 * 2048 \<le> 3 * 2048"
    by simp
  with assms(1) d2 show "unat (x + ucast (pos div 4) * 2048) = unat x + (unat pos div 4) * 2048"
    by (simp add: unat_ptr_add)
qed

lemma polygon_index_vert_max:
  "vert_max (idx (snd (polygon_index s b))) = max (vert_max (idx s)) (prev_vert_max (idx s) + ucast b)"
  by (auto simp: polygon_index_def Let_def max_def)

lemma poly_state_vert_max:
  "vert_max (idx (poly_state s bs)) =
     fold (\<lambda>b m. max m (prev_vert_max (idx s) + ucast b)) bs (vert_max (idx s))"
  by (induction bs arbitrary: s) (simp_all add: polygon_index_vert_max)

lemma Max_insert_max:
  fixes a c :: nat
  assumes "finite S"
  shows "Max (insert (max a c) S) = Max (insert a (insert c S))"
proof (cases "S = {}")
  case True
  then show ?thesis by (simp add: max.commute)
next
  case False
  with assms show ?thesis by (simp add: max.assoc)
qed

lemma fold_max_unat:
  fixes m :: ulong and bs :: "byte list"
  assumes "unat prev + 255 < 2 ^ 64"
  shows "unat (fold (\<lambda>b m. max m (prev + ucast b)) bs m) =
     Max (set (unat m # map (\<lambda>b. unat prev + unat b) bs))"
proof (induction bs arbitrary: m)
  case Nil
  then show ?case by simp
next
  case (Cons b bs)
  have "unat (max m (prev + ucast b)) = max (unat m) (unat (prev + ucast b))"
    by (simp add: max_def word_le_nat_alt)
  also have "unat (prev + ucast b) = unat prev + unat b"
    using assms by (rule unat_add_byte)
  finally have "unat (max m (prev + ucast b)) = max (unat m) (unat prev + unat b)" .
  then show ?case
    by (simp add: Cons.IH Max_insert_max)
qed

subsection \<open>The test segment\<close>

lemma length_minimal_segment: "length vb \<le> 36776 \<Longrightarrow> length (minimal_segment vb) = 36864"
  by (simp add: minimal_segment_def)

lemma minimal_segment_header:
  "minimal_segment vb ! 0 = 0" "minimal_segment vb ! 1 = 0"
  "minimal_segment vb ! 68 = 1" "minimal_segment vb ! 69 = 3"
  "minimal_segment vb ! 72 = 0" "minimal_segment vb ! 73 = 1" "minimal_segment vb ! 74 = 2"
  by (simp_all add: minimal_segment_def nth_append)

lemma minimal_segment_vertices:
  "k < length vb \<Longrightarrow> minimal_segment vb ! (88 + k) = vb ! k"
  by (simp add: minimal_segment_def nth_append)

lemma minimal_segment_offset:
  "block_offset (minimal_segment vb) 0 = 68"
  "0 < pos \<Longrightarrow> pos < 16 \<Longrightarrow> block_offset (minimal_segment vb) pos = 0"
proof -
  show "block_offset (minimal_segment vb) 0 = 68"
    by (simp add: block_offset_def minimal_segment_def le32_def nth_append)
  assume "0 < pos" "pos < 16"
  then have p: "0 < unat pos" "unat pos < 16"
    by (simp_all add: word_less_nat_alt)
  then have "minimal_segment vb ! (4 + 4 * unat pos) = 0" "minimal_segment vb ! (5 + 4 * unat pos) = 0"
    "minimal_segment vb ! (6 + 4 * unat pos) = 0" "minimal_segment vb ! (7 + 4 * unat pos) = 0"
    by (simp_all add: minimal_segment_def nth_append nth_Cons')
  then show "block_offset (minimal_segment vb) pos = 0"
    by (simp add: block_offset_def le32_def)
qed

subsection \<open>One triangle record\<close>

text \<open>
  C2. For a triangle record that lies inside the segment buffer, \<^verbatim>\<open>convert_polygon\<close>
  prints the three indices \<open>prev_vert_max + b\<close>, \<open>b\<close> the record's first, second and third
  byte, of any value 0 to 255 (the sum is the number \<open>prev_vert_max + b\<close> as long as it
  does not pass \<open>2^64\<close>); \<open>prev_vert_max\<close> is kept, and \<open>vert_max\<close> takes each index in turn
  only when the index is strictly greater than it. An index that does not exceed
  \<open>vert_max\<close>, an equal one included, stores nothing.
\<close>

theorem convert_polygon_indices:
  fixes s :: conv_state and buf :: "byte list" and p :: ulong
  assumes "unat p + 2 < length buf" "length buf = 36864"
  defines "prev \<equiv> prev_vert_max (idx s)"
  defines "g \<equiv> \<lambda>k. prev + ucast (buf ! (unat p + k))"
  defines "bump \<equiv> \<lambda>m v. if m < v then v else (m :: ulong)"
  shows "\<exists>r s'. convert_polygon s buf p = (r, s')
     \<and> olines (out s') =
         (if oroom (out s) = 0 then olines (out s)
          else olines (out s) @ [Face [unat (g 0), unat (g 1), unat (g 2)]])
     \<and> prev_vert_max (idx s') = prev
     \<and> vert_max (idx s') = bump (bump (bump (vert_max (idx s)) (g 0)) (g 1)) (g 2)
     \<and> (unat prev + 255 < 2 ^ 64 \<longrightarrow>
          (\<forall>k<3. unat (g k) = unat prev + unat (buf ! (unat p + k))))
     \<and> (\<forall>b :: byte. prev + ucast b \<le> vert_max (idx s) \<longrightarrow> snd (polygon_index s b) = s)
     \<and> (\<forall>b :: byte. vert_max (idx s) < prev + ucast b \<longrightarrow>
          vert_max (idx (snd (polygon_index s b))) = prev + ucast b)"
proof -
  let ?t = "poly_state s [buf ! unat p, buf ! (unat p + 1), buf ! (unat p + 2)]"
  let ?s' = "write_line (face_line prev buf (unat p)) ?t"
  from assms(1,2) have "unat p + 2 < 2 ^ 64" by simp
  with assms(1) have c: "convert_polygon s buf p = (ferror_status ?s', ?s')"
    by (simp add: convert_polygon_inside Let_def prev_def)
  have l: "olines (out ?s') =
         (if oroom (out s) = 0 then olines (out s)
          else olines (out s) @ [Face [unat (g 0), unat (g 1), unat (g 2)]])"
    by (simp add: fput_line_simps face_line_def g_def)
  have pv: "prev_vert_max (idx ?s') = prev"
    by (simp add: prev_def)
  have step: "vert_max (idx (snd (polygon_index t b))) =
      bump (vert_max (idx t)) (prev_vert_max (idx t) + ucast b)" for t and b :: byte
    by (simp add: polygon_index_def Let_def bump_def)
  have vm: "vert_max (idx ?s') = bump (bump (bump (vert_max (idx s)) (g 0)) (g 1)) (g 2)"
    by (simp add: step g_def prev_def)
  have n: "unat (g k) = unat prev + unat (buf ! (unat p + k))" if "unat prev + 255 < 2 ^ 64" for k
    using that by (simp add: g_def unat_add_byte)
  have e: "snd (polygon_index s b) = s" if "prev + ucast b \<le> vert_max (idx s)" for b :: byte
    using that by (simp add: polygon_index_def Let_def prev_def not_less [symmetric])
  have u: "vert_max (idx (snd (polygon_index s b))) = prev + ucast b"
    if "vert_max (idx s) < prev + ucast b" for b :: byte
    using that by (simp add: polygon_index_def Let_def prev_def)
  from c l pv vm n e u show ?thesis
    by blast
qed


theorem convert_polygon_indices_witness:
  "unat (72 :: ulong) + 2 < length (minimal_segment test_vertices)
   \<and> length (minimal_segment test_vertices) = 36864
   \<and> (\<exists>r s'. convert_polygon (init_state test_sink) (minimal_segment test_vertices) 72 = (r, s')
        \<and> olines (out s') = [Face [1, 2, 3]]
        \<and> prev_vert_max (idx s') = 1 \<and> vert_max (idx s') = 3)"
proof -
  have h: "unat (72 :: ulong) + 2 < length (minimal_segment test_vertices)"
    "length (minimal_segment test_vertices) = 36864"
    by (simp_all add: length_minimal_segment test_vertices_def)
  from convert_polygon_indices [OF h, of "init_state test_sink"] h show ?thesis
    by (auto simp: minimal_segment_header init_state_def test_sink_def)
qed

subsection \<open>The state after a block\<close>

lemma poly_state_last:
  assumes "hist s \<noteq> []" "last (hist s) = idx s"
  shows "hist (poly_state s bs) \<noteq> [] \<and> last (hist (poly_state s bs)) = idx (poly_state s bs)"
  using assms
proof (induction bs arbitrary: s)
  case Nil
  then show ?case by simp
next
  case (Cons b bs)
  have "hist (snd (polygon_index s b)) \<noteq> [] \<and>
      last (hist (snd (polygon_index s b))) = idx (snd (polygon_index s b))"
    using Cons.prems by (simp add: polygon_index_def Let_def)
  then show ?case
    using Cons.IH by simp
qed

lemma poly_state_hist:
  "\<exists>mid. hist (poly_state s bs) = hist s @ mid \<and>
     (\<forall>v\<in>set mid. prev_vert_max v = prev_vert_max (idx s))"
proof (induction bs arbitrary: s)
  case Nil
  then show ?case by simp
next
  case (Cons b bs)
  let ?t = "snd (polygon_index s b)"
  from Cons.IH [of ?t] obtain mid where
    m: "hist (poly_state ?t bs) = hist ?t @ mid" "\<forall>v\<in>set mid. prev_vert_max v = prev_vert_max (idx s)"
    by auto
  have "\<exists>m1. hist ?t = hist s @ m1 \<and> (\<forall>v\<in>set m1. prev_vert_max v = prev_vert_max (idx s))"
    by (simp add: polygon_index_def Let_def)
  then obtain m1 where "hist ?t = hist s @ m1" "\<forall>v\<in>set m1. prev_vert_max v = prev_vert_max (idx s)"
    by blast
  with m have "hist (poly_state s (b # bs)) = hist s @ (m1 @ mid) \<and>
      (\<forall>v\<in>set (m1 @ mid). prev_vert_max v = prev_vert_max (idx s))"
    by auto
  then show ?case by blast
qed

lemma block_result_out:
  assumes "np + nv \<le> oroom (out s)"
  shows "olines (out (block_result x z s buf off np nv)) =
     olines (out s) @ map (\<lambda>j. face_line (vert_max (idx s)) buf (off + 4 + 16 * j)) [0..<np] @
       map (\<lambda>j. vertex_line x z buf (off + 4 + 16 * np + 8 * j)) [0..<nv]"
  using assms by (simp add: block_result_def write_lines_out)

lemma block_result_hist:
  defines "t \<equiv> \<lambda>s buf off np. poly_state (block_begin s) (index_bytes buf (off + 4) np)"
  shows "hist (block_result x z s buf off np nv) = hist (t s buf off np) @ [idx (block_result x z s buf off np nv)]"
    and "last (hist (t s buf off np)) = idx (t s buf off np)"
    and "vert_max (idx (block_result x z s buf off np nv)) = vert_max (idx (t s buf off np)) + 1"
    and "prev_vert_max (idx (block_result x z s buf off np nv)) = vert_max (idx s)"
    and "\<exists>mid. hist (t s buf off np) =
          hist s @ [\<lparr>vert_max = vert_max (idx s), prev_vert_max = vert_max (idx s)\<rparr>] @ mid
          \<and> (\<forall>v\<in>set mid. prev_vert_max v = vert_max (idx s))"
proof -
  show "hist (block_result x z s buf off np nv) = hist (t s buf off np) @ [idx (block_result x z s buf off np nv)]"
    by (simp add: block_result_def t_def block_end_def)
  have "hist (block_begin s) \<noteq> []" "last (hist (block_begin s)) = idx (block_begin s)"
    by (simp_all add: block_begin_def)
  then show "last (hist (t s buf off np)) = idx (t s buf off np)"
    unfolding t_def by (simp add: poly_state_last)
  show "vert_max (idx (block_result x z s buf off np nv)) = vert_max (idx (t s buf off np)) + 1"
    by (simp add: block_result_def t_def)
  show "prev_vert_max (idx (block_result x z s buf off np nv)) = vert_max (idx s)"
    by (simp add: block_result_def)
  from poly_state_hist [of "block_begin s" "index_bytes buf (off + 4) np"]
  show "\<exists>mid. hist (t s buf off np) =
          hist s @ [\<lparr>vert_max = vert_max (idx s), prev_vert_max = vert_max (idx s)\<rparr>] @ mid
          \<and> (\<forall>v\<in>set mid. prev_vert_max v = vert_max (idx s))"
    by (simp add: t_def)
qed

lemma block_vert_max:
  assumes "unat (vert_max (idx s)) + 255 < 2 ^ 64"
  shows "unat (vert_max (idx (poly_state (block_begin s) bs))) =
     Max (set (unat (vert_max (idx s)) # map (\<lambda>b. unat (vert_max (idx s)) + unat b) bs))"
  using assms by (simp add: poly_state_vert_max fold_max_unat)

lemma Max_refs:
  fixes m :: nat
  assumes "bs \<noteq> []"
  shows "Max (set (m # map (\<lambda>b. m + f b) bs)) = Max (set (map (\<lambda>b. m + f b) bs))"
proof -
  from assms obtain b where "b \<in> set bs" by (cases bs) auto
  then have "m \<le> Max (set (map (\<lambda>b. m + f b) bs))"
    by (intro Max_ge_iff [THEN iffD2]) (auto intro!: bexI [of _ b])
  with assms show ?thesis
    by (simp add: max_absorb2)
qed

lemma index_bytes_Nil_iff: "index_bytes buf q n = [] \<longleftrightarrow> n = 0"
  by (cases n) (simp_all add: index_bytes_Suc)

lemma map_index_bytes:
  "map f (index_bytes buf q n) =
     concat (map (\<lambda>j. [f (buf ! (q + 16 * j)), f (buf ! (q + 16 * j + 1)), f (buf ! (q + 16 * j + 2))]) [0..<n])"
  by (simp add: index_bytes_def map_concat comp_def)

subsection \<open>Block 0 of the test segment\<close>

lemma init_state_simps:
  "idx (init_state outp) = \<lparr>vert_max = 1, prev_vert_max = 1\<rparr>"
  "out (init_state outp) = outp"
  "hist (init_state outp) = [\<lparr>vert_max = 1, prev_vert_max = 1\<rparr>]"
  by (simp_all add: init_state_def)

lemma test_block_0:
  "convert_block 0 0 0 (init_state test_sink) (minimal_segment test_vertices) =
     (None, block_result 0 0 (init_state test_sink) (minimal_segment test_vertices) 68 1 3)"
  using convert_block_run [of 0 "minimal_segment test_vertices" 68 1 3 "init_state test_sink" 0 0]
  by (simp add: length_minimal_segment minimal_segment_offset minimal_segment_header
      BLOCK_OFFSET_MAX_eq init_state_def test_sink_def test_vertices_def)

lemma test_block_0_result:
  "block_result 0 0 (init_state test_sink) (minimal_segment test_vertices) 68 1 3 =
     \<lparr>idx = \<lparr>vert_max = 4, prev_vert_max = 1\<rparr>,
      out = \<lparr>olines = [Face [1, 2, 3], Vertex 100 200 300, Vertex 1 2048 63487,
                       Vertex 1000 2000 62536],
             oroom = 996, oerr = False\<rparr>,
      hist = [\<lparr>vert_max = 1, prev_vert_max = 1\<rparr>, \<lparr>vert_max = 1, prev_vert_max = 1\<rparr>,
              \<lparr>vert_max = 2, prev_vert_max = 1\<rparr>, \<lparr>vert_max = 3, prev_vert_max = 1\<rparr>,
              \<lparr>vert_max = 4, prev_vert_max = 1\<rparr>]\<rparr>"
  by (simp add: block_result_def face_line_def vertex_line_def index_bytes_def polygon_index_def
      block_begin_def block_end_def write_line_def fput_line_def store_idx_def init_state_def
      test_sink_def limit_within_bounds_def le16_def BLOCK_BOUNDS_eq minimal_segment_def
      test_vertices_def nth_append Let_def upt_conv_Cons)

subsection \<open>The counters after a block\<close>

text \<open>
  C4. In a block that is decoded without failure, the value of the counters just before
  the padding increment of line 163, which is the value the history holds before its last
  entry, has \<open>vert_max\<close> equal to the greatest index that the block's triangle records
  refer to, when the block has a triangle; with no triangle \<open>vert_max\<close> is what it was when
  the block began. The indices are those the block's face lines print, and the increment
  then adds exactly 1.
\<close>

theorem vert_max_before_padding:
  assumes "convert_block pos x z s buf = (None, s')" "pos < 16" "length buf = 36864"
    and "unat (vert_max (idx s)) + 256 < 2 ^ 64"
  defines "off \<equiv> unat (block_offset buf pos)"
  defines "np \<equiv> unat (buf ! off)"
  defines "refs \<equiv> map (\<lambda>b. unat (vert_max (idx s)) + unat b) (index_bytes buf (off + 4) np)"
  defines "before_padding \<equiv> last (butlast (hist s'))"
  shows "(0 < np \<longrightarrow> unat (vert_max before_padding) = Max (set refs))
       \<and> (np = 0 \<longrightarrow> vert_max before_padding = vert_max (idx s))
       \<and> hist s' = butlast (hist s') @ [idx s']
       \<and> unat (vert_max (idx s')) = unat (vert_max before_padding) + 1
       \<and> (\<exists>fs vs. olines (out s') = olines (out s) @ map Face fs @ vs
             \<and> length fs = np \<and> concat fs = refs
             \<and> (\<forall>l\<in>set vs. \<exists>a b c. l = Vertex a b c))"
proof -
  define nv where "nv = unat (buf ! (off + 1))"
  define x' z' where "x' = x + ucast (pos mod 4) * 2048" and "z' = z + ucast (pos div 4) * 2048"
  define t where "t = poly_state (block_begin s) (index_bytes buf (off + 4) np)"
  note cb = convert_block_None [OF assms(1,2,3), folded off_def np_def, folded nv_def x'_def z'_def]
  note br1 = block_result_hist(1) [where x = x' and z = z' and s = s and buf = buf and off = off
      and np = np and nv = nv, folded cb(1), folded t_def]
  note br2 = block_result_hist(2) [where s = s and buf = buf and off = off and np = np,
      folded t_def]
  note br3 = block_result_hist(3) [where x = x' and z = z' and s = s and buf = buf and off = off
      and np = np and nv = nv, folded cb(1), folded t_def]
  from br1 have bp: "before_padding = idx t"
    by (simp add: before_padding_def br2)
  from assms(4) have w: "unat (vert_max (idx s)) + 255 < 2 ^ 64"
    by simp
  have m: "unat (vert_max (idx t)) = Max (set (unat (vert_max (idx s)) # refs))"
    unfolding t_def refs_def using w by (rule block_vert_max)
  have 1: "unat (vert_max before_padding) = Max (set refs)" if "0 < np"
  proof -
    from that have "index_bytes buf (off + 4) np \<noteq> []"
      by (simp add: index_bytes_Nil_iff)
    then show ?thesis
      unfolding bp m refs_def by (rule Max_refs)
  qed
  have 2: "vert_max before_padding = vert_max (idx s)" if "np = 0"
    using that by (simp add: bp t_def)
  have 3: "hist s' = butlast (hist s') @ [idx s']"
    by (simp add: br1)
  have "unat (vert_max (idx t)) \<le> unat (vert_max (idx s)) + 255"
  proof -
    have "unat b \<le> 255" for b :: byte
      using unat_byte_less [of b] by simp
    then have "\<forall>r\<in>set (unat (vert_max (idx s)) # refs). r \<le> unat (vert_max (idx s)) + 255"
      by (auto simp: refs_def)
    then show ?thesis
      unfolding m by (simp del: set_simps)
  qed
  with assms(4) have 4: "unat (vert_max (idx s')) = unat (vert_max before_padding) + 1"
    by (simp add: br3 bp unat_ptr_add)
  let ?fs = "map (\<lambda>j. map (\<lambda>b. unat (vert_max (idx s)) + unat b)
      [buf ! (off + 4 + 16 * j), buf ! (off + 4 + 16 * j + 1), buf ! (off + 4 + 16 * j + 2)]) [0..<np]"
  let ?vs = "map (\<lambda>j. vertex_line x' z' buf (off + 4 + 16 * np + 8 * j)) [0..<nv]"
  have "olines (out s') = olines (out s) @ map Face ?fs @ ?vs"
    using cb(3) w by (simp add: cb(1) block_result_out face_line_nat comp_def)
  moreover have "length ?fs = np" by simp
  moreover have "concat ?fs = refs"
    by (simp add: refs_def map_index_bytes)
  moreover have "\<forall>l\<in>set ?vs. \<exists>a b c. l = Vertex a b c"
    by (auto simp: vertex_line_def)
  ultimately have 5: "\<exists>fs vs. olines (out s') = olines (out s) @ map Face fs @ vs
             \<and> length fs = np \<and> concat fs = refs
             \<and> (\<forall>l\<in>set vs. \<exists>a b c. l = Vertex a b c)"
    by blast
  from 1 2 3 4 5 show ?thesis by blast
qed


theorem vert_max_before_padding_witness:
  "convert_block 0 0 0 (init_state test_sink) (minimal_segment test_vertices) =
     (None, block_result 0 0 (init_state test_sink) (minimal_segment test_vertices) 68 1 3)
   \<and> (0 :: uint) < 16 \<and> length (minimal_segment test_vertices) = 36864
   \<and> unat (vert_max (idx (init_state test_sink))) + 256 < 2 ^ 64
   \<and> unat (vert_max (last (butlast
         (hist (block_result 0 0 (init_state test_sink) (minimal_segment test_vertices) 68 1 3)))))
       = Max (set [1, 2, 3])
   \<and> unat (vert_max (idx (block_result 0 0 (init_state test_sink) (minimal_segment test_vertices) 68 1 3)))
       = 4"
proof -
  have h: "(0 :: uint) < 16" "length (minimal_segment test_vertices) = 36864"
    "unat (vert_max (idx (init_state test_sink))) + 256 < 2 ^ 64"
    by (simp_all add: length_minimal_segment test_vertices_def init_state_def)
  have a: "unat (vert_max (last (butlast
         (hist (block_result 0 0 (init_state test_sink) (minimal_segment test_vertices) 68 1 3)))))
       = Max (set [1, 2, 3])"
    "unat (vert_max (idx (block_result 0 0 (init_state test_sink) (minimal_segment test_vertices) 68 1 3)))
       = 4"
    unfolding test_block_0_result by simp_all
  from vert_max_before_padding [OF test_block_0 h] test_block_0 h a show ?thesis
    by simp
qed

subsection \<open>The history only grows\<close>

lemma convert_block_grows:
  assumes "convert_block pos x z s buf = (r, s')"
  shows "\<exists>ext. hist s' = hist s @ ext"
  using convert_block_shape [OF assms]
proof
  assume "s' = s"
  then show ?thesis by simp
next
  assume "\<exists>bs ls. s' = block_end (write_lines ls (poly_state (block_begin s) bs))"
  then obtain bs ls where s': "s' = block_end (write_lines ls (poly_state (block_begin s) bs))"
    by blast
  from poly_state_hist [of "block_begin s" bs] obtain mid
    where "hist (poly_state (block_begin s) bs) = hist (block_begin s) @ mid"
    by blast
  then show ?thesis by (simp add: s')
qed

lemma blocks_loop_grows:
  assumes "blocks_loop i res x z s buf = (r, s')"
  shows "\<exists>ext. hist s' = hist s @ ext"
  using assms
proof (induction i res x z s buf rule: blocks_loop.induct)
  case (1 i res x z s buf)
  show ?case
  proof (cases "res = None \<and> i \<noteq> BLOCKS_PER_SEGMENT")
    case False
    with "1.prems" have "s' = s"
      by (subst (asm) blocks_loop.simps) auto
    then show ?thesis by simp
  next
    case True
    obtain r1 s1 where c: "convert_block i x z s buf = (r1, s1)"
      by (cases "convert_block i x z s buf")
    with True "1.prems" have l: "blocks_loop (i + 1) r1 x z s1 buf = (r, s')"
      by (subst (asm) blocks_loop.simps) simp
    from "1.IH" [OF True c [symmetric] l] convert_block_grows [OF c]
    show ?thesis by auto
  qed
qed

lemma convert_segment_grows:
  assumes "convert_segment pos s inp = (r, s', inp')"
  shows "\<exists>ext. hist s' = hist s @ ext"
proof (cases "fread_segment inp")
  case None
  with assms have "s' = s" by (simp add: convert_segment_def)
  then show ?thesis by simp
next
  case (Some a)
  then obtain buf inp1 where f: "fread_segment inp = Some (buf, inp1)"
    by (cases a) simp
  with assms obtain x z where "blocks_loop 0 None x z s buf = (r, s')"
    by (auto simp: convert_segment_def Let_def split: prod.splits)
  then show ?thesis by (rule blocks_loop_grows)
qed

lemma segments_loop_grows:
  assumes "segments_loop i endi j res s inp = (r, s', inp')"
  shows "\<exists>ext. hist s' = hist s @ ext"
  using assms
proof (induction i endi j res s inp rule: segments_loop.induct)
  case (1 i endi j res s inp)
  show ?case
  proof (cases "res = None \<and> i \<noteq> endi")
    case False
    with "1.prems" have "s' = s"
      by (subst (asm) segments_loop.simps) auto
    then show ?thesis by simp
  next
    case True
    obtain r1 s1 inp1 where c: "convert_segment j s inp = (r1, s1, inp1)"
      by (cases "convert_segment j s inp")
    with True "1.prems" have l: "segments_loop (i + 1) endi (j + 1) r1 s1 inp1 = (r, s', inp')"
      by (subst (asm) segments_loop.simps) simp
    from "1.IH" [OF True c [symmetric] refl l] convert_segment_grows [OF c]
    show ?thesis by auto
  qed
qed

lemma convert_to_obj_grows:
  assumes "convert_to_obj start endi inp outp mem = (r, s, inp')"
  shows "\<exists>ext. hist s = \<lparr>vert_max = 1, prev_vert_max = 1\<rparr> # ext"
proof (cases "\<exists>inp1. fseek_set inp (ucast start * SEGMENT_SIZE) = Some inp1 \<and> mem")
  case False
  with assms have "s = init_state outp"
    by (auto simp: convert_to_obj_def split: option.splits if_splits)
  then show ?thesis by (simp add: init_state_simps)
next
  case True
  with assms obtain j inp1 where
    "segments_loop start (endi + 1) j None (init_state outp) inp1 = (r, s, inp')"
    by (auto simp: convert_to_obj_def Let_def)
  from segments_loop_grows [OF this] show ?thesis
    by (simp add: init_state_simps)
qed

lemma tracked_all:
  assumes "tracked B s" "v \<in> set (hist s)"
  shows "prev_vert_max v \<le> vert_max v" "unat (vert_max v) \<le> B"
proof -
  from assms show "prev_vert_max v \<le> vert_max v"
    by (simp add: tracked_def counters_ok_def)
  from assms have "v = idx s \<or> counters_le v (idx s)"
    using sorted_wrt_last [of counters_le "hist s" v] by (auto simp: tracked_def counters_ok_def)
  then have "vert_max v \<le> vert_max (idx s)"
    by (auto simp: counters_le_def)
  with assms(1) show "unat (vert_max v) \<le> B"
    by (simp add: tracked_def word_le_nat_alt)
qed

lemma block_vert_max_le:
  assumes "unat (vert_max (idx s)) + 255 < 2 ^ 64"
  shows "unat (vert_max (idx (poly_state (block_begin s) bs))) \<le> unat (vert_max (idx s)) + 255"
proof -
  have "unat b \<le> 255" for b :: byte
    using unat_byte_less [of b] by simp
  then have "\<forall>r\<in>set (unat (vert_max (idx s)) # map (\<lambda>b. unat (vert_max (idx s)) + unat b) bs).
      r \<le> unat (vert_max (idx s)) + 255"
    by auto
  then show ?thesis
    unfolding block_vert_max [OF assms] by (simp del: set_simps)
qed

lemma convert_block_accepted:
  assumes "convert_block pos x z s buf = (r, s')" "pos < 16" "length buf = 36864"
    and "\<not> BLOCK_OFFSET_MAX < block_offset buf pos"
  shows "\<exists>bs ls. s' = block_end (write_lines ls (poly_state (block_begin s) bs))"
proof -
  let ?o = "block_offset buf pos"
  obtain res1 p1 s2 where l1:
    "polygons_loop 0 (buf ! unat ?o) None (?o + 4) (block_begin s) buf = (res1, p1, s2)"
    by (cases "polygons_loop 0 (buf ! unat ?o) None (?o + 4) (block_begin s) buf")
  obtain res2 p2 s3 where l2:
    "vertices_loop 0 (buf ! (unat ?o + 1)) res1 p1 (x + ucast (pos mod 4) * 2048)
        (z + ucast (pos div 4) * 2048) s2 buf = (res2, p2, s3)"
    by (cases "vertices_loop 0 (buf ! (unat ?o + 1)) res1 p1 (x + ucast (pos mod 4) * 2048)
        (z + ucast (pos div 4) * 2048) s2 buf")
  from assms(1,4) l1 l2 have s': "s' = block_end s3"
    by (simp add: convert_block_unfold [OF assms(2,3)] Let_def)
  from polygons_loop_shape [OF l1] obtain bs ls1
    where s2: "s2 = write_lines ls1 (poly_state (block_begin s) bs)" by blast
  from vertices_loop_shape [OF l2] obtain ls2
    where s3: "s3 = write_lines ls2 s2" by blast
  have "s' = block_end (write_lines (ls1 @ ls2) (poly_state (block_begin s) bs))"
    by (simp add: s' s3 s2)
  then show ?thesis by blast
qed

subsection \<open>The counters throughout a run\<close>

text \<open>
  C5. In every run of the driver, whatever its arguments and however it ends, the
  successive values of the two counters (the history, which starts with the pair 1, 1 of
  line 218) never decrease, and \<open>prev_vert_max \<le> vert_max\<close> holds for each of them; no
  value of \<open>vert_max\<close> comes near \<open>2^64\<close>. A block whose offset is rejected stores nothing.
  Every other block first stores \<open>prev_vert_max = vert_max\<close>, keeps \<open>prev_vert_max\<close> while
  its records are decoded, and ends by storing \<open>vert_max + 1\<close>, whatever the records were.
\<close>

theorem counters_throughout_run:
  "(\<forall>start endi inp outp mem r s inp'.
      convert_to_obj start endi inp outp mem = (r, s, inp') \<longrightarrow>
        sorted_wrt counters_le (hist s)
        \<and> (\<forall>v\<in>set (hist s). prev_vert_max v \<le> vert_max v \<and> unat (vert_max v) + 256 < 2 ^ 64)
        \<and> hd (hist s) = \<lparr>vert_max = 1, prev_vert_max = 1\<rparr> \<and> last (hist s) = idx s)
   \<and> (\<forall>pos x z s buf r s'.
      convert_block pos x z s buf = (r, s') \<and> pos < 16 \<and> length buf = 36864
        \<and> unat (vert_max (idx s)) + 256 < 2 ^ 64 \<longrightarrow>
        (if BLOCK_OFFSET_MAX < block_offset buf pos then s' = s
         else \<exists>mid. hist s' =
                hist s @ [\<lparr>vert_max = vert_max (idx s), prev_vert_max = vert_max (idx s)\<rparr>]
                  @ mid @ [idx s']
              \<and> (\<forall>v\<in>set mid. prev_vert_max v = vert_max (idx s))
              \<and> prev_vert_max (idx s') = vert_max (idx s)
              \<and> unat (vert_max (idx s')) =
                  unat (vert_max (last (\<lparr>vert_max = vert_max (idx s),
                                          prev_vert_max = vert_max (idx s)\<rparr> # mid))) + 1))"
proof (intro conjI allI impI)
  fix start endi inp outp mem r s inp'
  assume run: "convert_to_obj start endi inp outp mem = (r, s, inp')"
  note t = convert_to_obj_tracked [OF run]
  from t show "sorted_wrt counters_le (hist s)"
    by (simp add: tracked_def counters_ok_def)
  show "\<forall>v\<in>set (hist s). prev_vert_max v \<le> vert_max v \<and> unat (vert_max v) + 256 < 2 ^ 64"
  proof
    fix v assume "v \<in> set (hist s)"
    from tracked_all [OF t this] show "prev_vert_max v \<le> vert_max v \<and> unat (vert_max v) + 256 < 2 ^ 64"
      by simp
  qed
  from convert_to_obj_grows [OF run] show "hd (hist s) = \<lparr>vert_max = 1, prev_vert_max = 1\<rparr>"
    by auto
  from t show "last (hist s) = idx s"
    by (simp add: tracked_def)
next
  fix pos x z s buf r s'
  assume a: "convert_block pos x z s buf = (r, s') \<and> pos < 16 \<and> length buf = 36864
        \<and> unat (vert_max (idx s)) + 256 < 2 ^ 64"
  let ?v1 = "\<lparr>vert_max = vert_max (idx s), prev_vert_max = vert_max (idx s)\<rparr>"
  show "if BLOCK_OFFSET_MAX < block_offset buf pos then s' = s
         else \<exists>mid. hist s' = hist s @ [?v1] @ mid @ [idx s']
              \<and> (\<forall>v\<in>set mid. prev_vert_max v = vert_max (idx s))
              \<and> prev_vert_max (idx s') = vert_max (idx s)
              \<and> unat (vert_max (idx s')) = unat (vert_max (last (?v1 # mid))) + 1"
  proof (cases "BLOCK_OFFSET_MAX < block_offset buf pos")
    case True
    from a have "convert_block pos x z s buf = (r, s')" "pos < 16" "length buf = 36864"
      by simp_all
    with True show ?thesis
      by (simp add: convert_block_unfold [of pos buf])
  next
    case False
    with a convert_block_accepted [of pos x z s buf r s'] obtain bs ls
      where s': "s' = block_end (write_lines ls (poly_state (block_begin s) bs))"
      by blast
    let ?t = "poly_state (block_begin s) bs"
    from poly_state_hist [of "block_begin s" bs] obtain mid
      where m: "hist ?t = hist s @ [?v1] @ mid" "\<forall>v\<in>set mid. prev_vert_max v = vert_max (idx s)"
      by auto
    have "hist (block_begin s) \<noteq> []" "last (hist (block_begin s)) = idx (block_begin s)"
      by (simp_all add: block_begin_def)
    then have "last (hist ?t) = idx ?t"
      by (simp add: poly_state_last)
    with m(1) have l: "idx ?t = last (?v1 # mid)"
      by simp
    from a have "unat (vert_max (idx s)) + 255 < 2 ^ 64" by simp
    from block_vert_max_le [OF this, of bs] a
    have "unat (vert_max (idx ?t) + 1) = unat (vert_max (idx ?t)) + 1"
      by (simp add: unat_ptr_add)
    then have "unat (vert_max (idx s')) = unat (vert_max (last (?v1 # mid))) + 1"
      by (simp add: s' l)
    moreover have "hist s' = hist s @ [?v1] @ mid @ [idx s']"
      by (simp add: s' m(1))
    moreover have "prev_vert_max (idx s') = vert_max (idx s)"
      by (simp add: s')
    ultimately show ?thesis
      using False m(2) by auto
  qed
qed


theorem counters_throughout_run_witness:
  "sorted_wrt counters_le (hist (fst (snd (convert_to_obj 0 0 test_file test_sink True))))
   \<and> hd (hist (fst (snd (convert_to_obj 0 0 test_file test_sink True))))
       = \<lparr>vert_max = 1, prev_vert_max = 1\<rparr>
   \<and> convert_block 0 0 0 (init_state test_sink) (minimal_segment test_vertices) =
       (None, block_result 0 0 (init_state test_sink) (minimal_segment test_vertices) 68 1 3)
   \<and> (0 :: uint) < 16 \<and> length (minimal_segment test_vertices) = 36864
   \<and> unat (vert_max (idx (init_state test_sink))) + 256 < 2 ^ 64
   \<and> \<not> BLOCK_OFFSET_MAX < block_offset (minimal_segment test_vertices) 0
   \<and> (\<exists>mid. hist (block_result 0 0 (init_state test_sink) (minimal_segment test_vertices) 68 1 3) =
         hist (init_state test_sink) @ [\<lparr>vert_max = 1, prev_vert_max = 1\<rparr>] @ mid @
           [\<lparr>vert_max = 4, prev_vert_max = 1\<rparr>]
        \<and> unat (vert_max (last (\<lparr>vert_max = 1, prev_vert_max = 1\<rparr> # mid))) + 1 = 4)"
proof -
  let ?run = "convert_to_obj 0 0 test_file test_sink True"
  let ?S = "block_result 0 0 (init_state test_sink) (minimal_segment test_vertices) 68 1 3"
  let ?v1 = "\<lparr>vert_max = 1 :: ulong, prev_vert_max = 1 :: ulong\<rparr>"
  have run: "?run = (fst ?run, fst (snd ?run), snd (snd ?run))"
    by (simp only: prod.collapse)
  have h: "(0 :: uint) < 16" "length (minimal_segment test_vertices) = 36864"
    "unat (vert_max (idx (init_state test_sink))) + 256 < 2 ^ 64"
    "\<not> BLOCK_OFFSET_MAX < block_offset (minimal_segment test_vertices) 0"
    by (simp_all add: length_minimal_segment test_vertices_def init_state_simps
        minimal_segment_offset BLOCK_OFFSET_MAX_eq)
  have i: "idx ?S = \<lparr>vert_max = 4, prev_vert_max = 1\<rparr>"
    unfolding test_block_0_result by simp
  have v: "vert_max (idx (init_state test_sink)) = 1"
    by (simp add: init_state_simps)
  note r = counters_throughout_run [THEN conjunct1, rule_format, OF run]
  note 1 = r [THEN conjunct1] r [THEN conjunct2, THEN conjunct2, THEN conjunct1]
  have "if BLOCK_OFFSET_MAX < block_offset (minimal_segment test_vertices) 0 then ?S = init_state test_sink
      else \<exists>mid. hist ?S = hist (init_state test_sink) @
                [\<lparr>vert_max = vert_max (idx (init_state test_sink)),
                   prev_vert_max = vert_max (idx (init_state test_sink))\<rparr>] @ mid @ [idx ?S]
              \<and> (\<forall>v\<in>set mid. prev_vert_max v = vert_max (idx (init_state test_sink)))
              \<and> prev_vert_max (idx ?S) = vert_max (idx (init_state test_sink))
              \<and> unat (vert_max (idx ?S)) =
                  unat (vert_max (last (\<lparr>vert_max = vert_max (idx (init_state test_sink)),
                      prev_vert_max = vert_max (idx (init_state test_sink))\<rparr> # mid))) + 1"
    using counters_throughout_run [THEN conjunct2, rule_format, of 0 0 0 "init_state test_sink"
        "minimal_segment test_vertices" None ?S] test_block_0 h(1,2,3)
    by blast
  then obtain mid where m: "hist ?S = hist (init_state test_sink) @ [?v1] @ mid @ [idx ?S]"
    "unat (vert_max (idx ?S)) = unat (vert_max (last (?v1 # mid))) + 1"
    unfolding v by (simp only: h(4) if_False) blast
  from m(2) have "unat (vert_max (last (?v1 # mid))) + 1 = 4"
    unfolding i by simp
  with m(1) have 2: "\<exists>mid. hist ?S = hist (init_state test_sink) @ [?v1] @ mid @
           [\<lparr>vert_max = 4, prev_vert_max = 1\<rparr>]
        \<and> unat (vert_max (last (?v1 # mid))) + 1 = 4"
    unfolding i by blast
  show ?thesis
    by (intro conjI 1 2 test_block_0 h)
qed

subsection \<open>Rejecting a block offset\<close>

lemma block_offset_table_entry:
  "BLOCK_OFFSET_MAX < block_offset buf pos \<longleftrightarrow> 34560 < table_entry buf (unat pos)"
  by (simp add: block_offset_def block_offset_rejected unat_le32 table_entry_def)

lemma convert_polygon_status:
  assumes "convert_polygon s buf p = (r, s')"
  shows "r \<noteq> Some InvalidBlockOffset"
  using assms
  by (auto simp: convert_polygon_def Let_def split_beta ferror_status_def rd_Inl_iff
      split: sum.splits if_splits)

lemma convert_vertex_status:
  assumes "convert_vertex x z s buf p = (r, s')"
  shows "r \<noteq> Some InvalidBlockOffset"
  using assms
  by (auto simp: convert_vertex_def Let_def ferror_status_def rd_Inl_iff
      split: sum.splits if_splits)

lemma polygons_loop_status:
  assumes "polygons_loop i n res p s buf = (r, p', s')" "res \<noteq> Some InvalidBlockOffset"
  shows "r \<noteq> Some InvalidBlockOffset"
  using assms
proof (induction i n res p s buf rule: polygons_loop.induct)
  case (1 i n res p s buf)
  show ?case
  proof (cases "res = None \<and> i \<noteq> n")
    case False
    with "1.prems" show ?thesis
      by (subst (asm) polygons_loop.simps) auto
  next
    case True
    obtain r1 s1 where c: "convert_polygon s buf p = (r1, s1)"
      by (cases "convert_polygon s buf p")
    with True "1.prems" have l: "polygons_loop (i + 1) n r1 (p + POLYGON_SIZE) s1 buf = (r, p', s')"
      by (subst (asm) polygons_loop.simps) simp
    from "1.IH" [OF True c [symmetric] l] convert_polygon_status [OF c]
    show ?thesis by simp
  qed
qed

lemma vertices_loop_status:
  assumes "vertices_loop i n res p x z s buf = (r, p', s')" "res \<noteq> Some InvalidBlockOffset"
  shows "r \<noteq> Some InvalidBlockOffset"
  using assms
proof (induction i n res p x z s buf rule: vertices_loop.induct)
  case (1 i n res p x z s buf)
  show ?case
  proof (cases "res = None \<and> i \<noteq> n")
    case False
    with "1.prems" show ?thesis
      by (subst (asm) vertices_loop.simps) auto
  next
    case True
    obtain r1 s1 where c: "convert_vertex x z s buf p = (r1, s1)"
      by (cases "convert_vertex x z s buf p")
    with True "1.prems" have l: "vertices_loop (i + 1) n r1 (p + VERTEX_SIZE) x z s1 buf = (r, p', s')"
      by (subst (asm) vertices_loop.simps) simp
    from "1.IH" [OF True c [symmetric] l] convert_vertex_status [OF c]
    show ?thesis by simp
  qed
qed

lemma convert_block_rejected:
  assumes "pos < 16" "length buf = 36864"
  shows "BLOCK_OFFSET_MAX < block_offset buf pos \<Longrightarrow>
           convert_block pos x z s buf = (Some InvalidBlockOffset, s)"
    and "\<not> BLOCK_OFFSET_MAX < block_offset buf pos \<Longrightarrow>
           fst (convert_block pos x z s buf) \<noteq> Some InvalidBlockOffset"
proof -
  show "convert_block pos x z s buf = (Some InvalidBlockOffset, s)"
    if "BLOCK_OFFSET_MAX < block_offset buf pos"
    using that by (simp add: convert_block_unfold [OF assms])
  show "fst (convert_block pos x z s buf) \<noteq> Some InvalidBlockOffset"
    if n: "\<not> BLOCK_OFFSET_MAX < block_offset buf pos"
  proof -
    let ?o = "block_offset buf pos"
    obtain res1 p1 s2 where l1:
      "polygons_loop 0 (buf ! unat ?o) None (?o + 4) (block_begin s) buf = (res1, p1, s2)"
      by (cases "polygons_loop 0 (buf ! unat ?o) None (?o + 4) (block_begin s) buf")
    obtain res2 p2 s3 where l2:
      "vertices_loop 0 (buf ! (unat ?o + 1)) res1 p1 (x + ucast (pos mod 4) * 2048)
          (z + ucast (pos div 4) * 2048) s2 buf = (res2, p2, s3)"
      by (cases "vertices_loop 0 (buf ! (unat ?o + 1)) res1 p1 (x + ucast (pos mod 4) * 2048)
          (z + ucast (pos div 4) * 2048) s2 buf")
    from n l1 l2 have "fst (convert_block pos x z s buf) = res2"
      by (simp add: convert_block_unfold [OF assms] Let_def)
    moreover from polygons_loop_status [OF l1] have "res1 \<noteq> Some InvalidBlockOffset"
      by simp
    from vertices_loop_status [OF l2 this] have "res2 \<noteq> Some InvalidBlockOffset" .
    ultimately show ?thesis by simp
  qed
qed

text \<open>
  The bound is not \<open>BLOCK_SIZE\<close>: a table entry of 2305, which is above 2304, is accepted,
  and the block at that offset, here one with no record, is decoded.
\<close>

lemma table_entry_2305_accepted:
  "length offset_2305_segment = 36864
   \<and> table_entry offset_2305_segment 0 = 2305 \<and> 2304 < table_entry offset_2305_segment 0
   \<and> fst (convert_block 0 0 0 (init_state test_sink) offset_2305_segment) = None
   \<and> fst (convert_block 0 0 0 (init_state test_sink) offset_2305_segment) \<noteq> Some InvalidBlockOffset"
proof -
  have l: "length offset_2305_segment = 36864"
    by (simp add: offset_2305_segment_def)
  have e: "table_entry offset_2305_segment 0 = 2305"
    by (simp add: table_entry_def offset_2305_segment_def nth_append)
  have o: "block_offset offset_2305_segment 0 = 2305"
    by (simp add: block_offset_def offset_2305_segment_def le32_def nth_append)
  have b: "offset_2305_segment ! 2305 = 0" "offset_2305_segment ! 2306 = 0"
    by (simp_all add: offset_2305_segment_def nth_append)
  have "convert_block 0 0 0 (init_state test_sink) offset_2305_segment =
      (None, block_result 0 0 (init_state test_sink) offset_2305_segment 2305 0 0)"
    using convert_block_run [of 0 offset_2305_segment 2305 0 0 "init_state test_sink" 0 0]
    by (simp add: l o b BLOCK_OFFSET_MAX_eq init_state_simps test_sink_def)
  with l e show ?thesis by simp
qed

subsection \<open>Records that run past the buffer\<close>

lemma polygons_loop_overrun:
  assumes "unat (n - i) = k" "0 < k" "length buf + 13 < unat p + 16 * k"
    and "unat p + 16 * k < 2 ^ 64" "k \<le> oroom (out s)" "\<not> oerr (out s)"
  shows "\<exists>e p' s'. length buf \<le> e \<and>
           polygons_loop i n None p s buf = (Some (BufferOverrun e), p', s')"
  using assms
proof (induction k arbitrary: i p s)
  case 0
  then show ?case by simp
next
  case (Suc k)
  from Suc.prems(1) have i: "i \<noteq> n" "unat (n - (i + 1)) = k"
    by (rule unat_diff_Suc)+
  from Suc.prems(4) have p2: "unat p + 2 < 2 ^ 64" by simp
  show ?case
  proof (cases "unat p + 2 < length buf")
    case False
    from convert_polygon_outside [OF False p2, of s] obtain e
      where "length buf \<le> e" "convert_polygon s buf p = (Some (BufferOverrun e), s)"
      by blast
    with i(1) show ?thesis
      by (simp add: polygons_loop_step polygons_loop_stop)
  next
    case True
    let ?s1 = "write_line (face_line (prev_vert_max (idx s)) buf (unat p))
               (poly_state s [buf ! unat p, buf ! (unat p + 1), buf ! (unat p + 2)])"
    from True p2 Suc.prems(5,6) have c: "convert_polygon s buf p = (None, ?s1)"
      by (simp add: convert_polygon_inside Let_def write_line_room)
    from Suc.prems(4) have u: "unat (p + 16) = unat p + 16"
      by (simp add: unat_ptr_add)
    from True Suc.prems(3) have k: "0 < k" by simp
    have "\<exists>e p' s'. length buf \<le> e \<and>
           polygons_loop (i + 1) n None (p + 16) ?s1 buf = (Some (BufferOverrun e), p', s')"
      using Suc.prems i(2) u k by (intro Suc.IH) (simp_all add: fput_line_simps)
    with i(1) c show ?thesis
      by (simp add: polygons_loop_step POLYGON_SIZE_def)
  qed
qed

lemma convert_block_overrun:
  assumes "pos < 16" "length buf = 36864" "block_offset buf pos \<le> BLOCK_OFFSET_MAX"
    and "off = unat (block_offset buf pos)" "np = unat (buf ! off)"
    and "36864 + 13 < off + 4 + 16 * np" "np \<le> oroom (out s)" "\<not> oerr (out s)"
  shows "\<exists>e. 36864 \<le> e \<and> fst (convert_block pos x z s buf) = Some (BufferOverrun e)"
proof -
  let ?o = "block_offset buf pos"
  from assms(3,4) have off: "off \<le> 34560"
    by (simp add: BLOCK_OFFSET_MAX_eq word_le_nat_alt)
  then have o4: "unat (?o + 4) = off + 4"
    by (simp add: assms(4) unat_ptr_add)
  have np: "unat (buf ! off - 0) = np" by (simp add: assms(5))
  have npb: "np < 256"
    unfolding assms(5) by (rule unat_byte_less)
  from assms(6) off have np0: "0 < np" by simp
  from off npb have b: "unat (?o + 4) + 16 * np < 2 ^ 64"
    by (simp add: o4)
  from polygons_loop_overrun [OF np np0 _ b, of buf "block_begin s"] assms(2,6,7,8) o4
  obtain e p1 s2 where e: "36864 \<le> e"
    and l1: "polygons_loop 0 (buf ! off) None (?o + 4) (block_begin s) buf = (Some (BufferOverrun e), p1, s2)"
    by auto
  from assms(3) have "\<not> BLOCK_OFFSET_MAX < ?o" by simp
  with l1 have "fst (convert_block pos x z s buf) = Some (BufferOverrun e)"
    by (simp add: convert_block_unfold [OF assms(1,2)] Let_def assms(4) [symmetric]
        vertices_loop_stop)
  with e show ?thesis by blast
qed

text \<open>
  C8. Neither count of a block header is checked against the end of the buffer: there
  is a segment of 36864 bytes and a block position whose table entry passes the offset
  check and whose triangle and vertex records, which may extend over
  \<open>255 * 16 + 255 * 8\<close> bytes from \<open>offset + 4\<close> on, are read at a byte index at or past the
  end of the buffer.
\<close>

theorem record_reads_overrun:
  "\<exists>buf pos. length buf = unat SEGMENT_SIZE \<and> pos < BLOCKS_PER_SEGMENT
     \<and> block_offset buf pos \<le> BLOCK_OFFSET_MAX
     \<and> (\<exists>e. unat SEGMENT_SIZE \<le> e
           \<and> fst (convert_block pos 0 0 (init_state test_sink) buf) = Some (BufferOverrun e))"
proof -
  have l: "length overrun_segment = 36864"
    by (simp add: overrun_segment_def)
  have o: "block_offset overrun_segment 0 = 34560"
    by (simp add: block_offset_def overrun_segment_def le32_def nth_append)
  have n: "overrun_segment ! 34560 = 255"
    by (simp add: overrun_segment_def nth_append)
  have "\<exists>e. 36864 \<le> e \<and>
      fst (convert_block 0 0 0 (init_state test_sink) overrun_segment) = Some (BufferOverrun e)"
    by (rule convert_block_overrun [of 0 overrun_segment 34560 255])
       (simp_all add: l o n BLOCK_OFFSET_MAX_eq init_state_simps test_sink_def)
  with l o show ?thesis
    by (intro exI [of _ overrun_segment] exI [of _ "0 :: uint"])
       (simp add: SEGMENT_SIZE_def BLOCKS_PER_SEGMENT_def BLOCK_OFFSET_MAX_eq)
qed

subsection \<open>The lines of a block\<close>

lemma convert_block_lines:
  assumes "convert_block pos x z s buf = (None, s')" "pos < 16" "length buf = 36864"
    and "unat x + 3 * 2048 + 65535 < 2 ^ 64" "unat z + 3 * 2048 + 65535 < 2 ^ 64"
  defines "off \<equiv> unat (block_offset buf pos)"
  defines "np \<equiv> unat (buf ! off)" and "nv \<equiv> unat (buf ! (off + 1))"
  shows "olines (out s') =
     olines (out s) @ map (\<lambda>j. face_line (vert_max (idx s)) buf (off + 4 + 16 * j)) [0..<np] @
       map (\<lambda>j. Vertex
              (unat x + unat pos mod 4 * 2048 + fold_coord (raw16 buf (off + 4 + 16 * np + 8 * j)))
              (fold_coord (raw16 buf (off + 4 + 16 * np + 8 * j + 2)))
              (unat z + unat pos div 4 * 2048 + fold_coord (raw16 buf (off + 4 + 16 * np + 8 * j + 4))))
         [0..<nv]"
proof -
  let ?x = "x + ucast (pos mod 4) * 2048" and ?z = "z + ucast (pos div 4) * 2048"
  note cb = convert_block_None [OF assms(1,2,3), folded off_def np_def, folded nv_def]
  from assms(4) have "unat x + 3 * 2048 < 2 ^ 64" by simp
  from unat_block_origin(1) [OF this assms(2)]
  have x: "unat ?x = unat x + unat pos mod 4 * 2048" .
  from assms(5) have "unat z + 3 * 2048 < 2 ^ 64" by simp
  from unat_block_origin(2) [OF this assms(2)]
  have z: "unat ?z = unat z + unat pos div 4 * 2048" .
  from assms(2) have "unat pos < 16"
    by (simp add: word_less_nat_alt)
  then have "unat pos mod 4 * 2048 \<le> 3 * 2048" "unat pos div 4 * 2048 \<le> 3 * 2048"
    by simp_all
  with assms(4,5) have b: "unat ?x + 65535 < 2 ^ 64" "unat ?z + 65535 < 2 ^ 64"
    unfolding x z by simp_all
  show ?thesis
    using cb(3) by (simp add: cb(1) block_result_out vertex_line_nat [OF b] x z)
qed

text \<open>
  C9. In a block decoded without failure, the line of every vertex record has as first
  and third coordinate the folded raw value plus the world offset, the offset handed to
  the block plus \<open>pos mod 4 * 2048\<close> and \<open>pos div 4 * 2048\<close>, and as second coordinate the
  folded raw value alone. The coordinates are in thousandths, the unit that is printed
  after the multiplication by 0.001.
\<close>

theorem vertex_offset_on_x_and_z_only:
  assumes "convert_block pos x z s buf = (None, s')" "pos < 16" "length buf = 36864"
    and "unat x + 3 * 2048 + 65535 < 2 ^ 64" "unat z + 3 * 2048 + 65535 < 2 ^ 64"
  defines "off \<equiv> unat (block_offset buf pos)"
  defines "np \<equiv> unat (buf ! off)" and "nv \<equiv> unat (buf ! (off + 1))"
  defines "q \<equiv> \<lambda>j. off + 4 + 16 * np + 8 * j"
  shows "\<exists>fs. length fs = np \<and> (\<forall>l\<in>set fs. \<exists>vs. l = Face vs)
     \<and> olines (out s') = olines (out s) @ fs @
          map (\<lambda>j. Vertex (unat x + unat pos mod 4 * 2048 + fold_coord (raw16 buf (q j)))
                          (fold_coord (raw16 buf (q j + 2)))
                          (unat z + unat pos div 4 * 2048 + fold_coord (raw16 buf (q j + 4))))
            [0..<nv]"
proof -
  let ?fs = "map (\<lambda>j. face_line (vert_max (idx s)) buf (off + 4 + 16 * j)) [0..<np]"
  have 1: "length ?fs = np" by simp
  have 2: "\<forall>l\<in>set ?fs. \<exists>vs. l = Face vs"
    by (auto simp: face_line_def)
  note 3 = convert_block_lines [OF assms(1-5), folded off_def np_def, folded nv_def]
  show ?thesis
    unfolding q_def by (intro exI [of _ ?fs] conjI 1 2 3)
qed

lemma test_block_0_at:
  "convert_block 0 x z (init_state test_sink) (minimal_segment test_vertices) =
     (None, block_result x z (init_state test_sink) (minimal_segment test_vertices) 68 1 3)"
  using convert_block_run [of 0 "minimal_segment test_vertices" 68 1 3 "init_state test_sink" x z]
  by (simp add: length_minimal_segment minimal_segment_offset minimal_segment_header
      BLOCK_OFFSET_MAX_eq init_state_simps test_sink_def test_vertices_def)

lemma test_vertices_raw16:
  "raw16 (minimal_segment test_vertices) 88 = 100" "raw16 (minimal_segment test_vertices) 90 = 200"
  "raw16 (minimal_segment test_vertices) 92 = 300" "raw16 (minimal_segment test_vertices) 96 = 65535"
  "raw16 (minimal_segment test_vertices) 98 = 2048" "raw16 (minimal_segment test_vertices) 100 = 2049"
  "raw16 (minimal_segment test_vertices) 104 = 1000" "raw16 (minimal_segment test_vertices) 106 = 2000"
  "raw16 (minimal_segment test_vertices) 108 = 3000"
  by (simp_all add: raw16_def minimal_segment_def test_vertices_def nth_append)

theorem vertex_offset_on_x_and_z_only_witness:
  "convert_block 0 8192 16384 (init_state test_sink) (minimal_segment test_vertices) =
     (None, block_result 8192 16384 (init_state test_sink) (minimal_segment test_vertices) 68 1 3)
   \<and> (0 :: uint) < 16 \<and> length (minimal_segment test_vertices) = 36864
   \<and> unat (8192 :: ulong) + 3 * 2048 + 65535 < 2 ^ 64
   \<and> unat (16384 :: ulong) + 3 * 2048 + 65535 < 2 ^ 64
   \<and> (\<exists>fs. length fs = 1
        \<and> olines (out (block_result 8192 16384 (init_state test_sink)
                         (minimal_segment test_vertices) 68 1 3)) =
            fs @ [Vertex 8292 200 16684, Vertex 8193 2048 79871, Vertex 9192 2000 78920])"
proof -
  have h: "(0 :: uint) < 16" "length (minimal_segment test_vertices) = 36864"
    "unat (8192 :: ulong) + 3 * 2048 + 65535 < 2 ^ 64"
    "unat (16384 :: ulong) + 3 * 2048 + 65535 < 2 ^ 64"
    by (simp_all add: length_minimal_segment test_vertices_def)
  let ?S = "block_result 8192 16384 (init_state test_sink) (minimal_segment test_vertices) 68 1 3"
  from vertex_offset_on_x_and_z_only [OF test_block_0_at h] obtain fs
    where fs: "length fs = unat (minimal_segment test_vertices !
                 unat (block_offset (minimal_segment test_vertices) 0))"
      and "olines (out ?S) = olines (out (init_state test_sink)) @ fs @
          map (\<lambda>j. Vertex (unat (8192 :: ulong) + unat (0 :: uint) mod 4 * 2048 +
                 fold_coord (raw16 (minimal_segment test_vertices)
                   (unat (block_offset (minimal_segment test_vertices) 0) + 4 +
                    16 * unat (minimal_segment test_vertices !
                      unat (block_offset (minimal_segment test_vertices) 0)) + 8 * j)))
               (fold_coord (raw16 (minimal_segment test_vertices)
                   (unat (block_offset (minimal_segment test_vertices) 0) + 4 +
                    16 * unat (minimal_segment test_vertices !
                      unat (block_offset (minimal_segment test_vertices) 0)) + 8 * j + 2)))
               (unat (16384 :: ulong) + unat (0 :: uint) div 4 * 2048 +
                 fold_coord (raw16 (minimal_segment test_vertices)
                   (unat (block_offset (minimal_segment test_vertices) 0) + 4 +
                    16 * unat (minimal_segment test_vertices !
                      unat (block_offset (minimal_segment test_vertices) 0)) + 8 * j + 4))))
            [0..<unat (minimal_segment test_vertices !
                 (unat (block_offset (minimal_segment test_vertices) 0) + 1))]"
    by blast
  then have "length fs = 1 \<and> olines (out ?S) =
      fs @ [Vertex 8292 200 16684, Vertex 8193 2048 79871, Vertex 9192 2000 78920]"
    by (simp add: minimal_segment_offset minimal_segment_header test_vertices_raw16
        init_state_simps test_sink_def fold_coord_def upt_conv_Cons)
  then have "\<exists>fs. length fs = 1 \<and> olines (out ?S) =
      fs @ [Vertex 8292 200 16684, Vertex 8193 2048 79871, Vertex 9192 2000 78920]"
    by (rule exI)
  then show ?thesis
    by (intro conjI test_block_0_at h)
qed

subsection \<open>The lines of a segment\<close>

lemma unat_Suc_word:
  fixes i :: uint
  assumes "unat i < 16"
  shows "unat (i + 1) = unat i + 1"
  using assms by (simp add: unat_add_lem [THEN iffD1])

lemma blocks_loop_lines:
  assumes "blocks_loop i None x z s buf = (None, s')" "unat (16 - i) = k" "unat i + k = 16"
    and "length buf = 36864"
    and "unat x + 3 * 2048 + 65535 < 2 ^ 64" "unat z + 3 * 2048 + 65535 < 2 ^ 64"
  shows "\<exists>F. olines (out s') = olines (out s) @
           concat (map (\<lambda>pos. F pos @ block_vertex_lines (unat x) (unat z) pos buf) [unat i..<16])
         \<and> (\<forall>pos. \<forall>l\<in>set (F pos). \<exists>vs. l = Face vs)"
  using assms(1,2,3)
proof (induction k arbitrary: i s)
  case 0
  then have "i = 16" by (simp add: unat_0_iff)
  with 0 have "s' = s" by (simp add: blocks_loop_done)
  then have "olines (out s') = olines (out s) @
           concat (map (\<lambda>pos. (\<lambda>_. []) pos @ block_vertex_lines (unat x) (unat z) pos buf) [unat i..<16])"
    using \<open>i = 16\<close> by simp
  then show ?case by fastforce
next
  case (Suc k)
  from Suc.prems(2) have i: "i \<noteq> 16" "unat (16 - (i + 1)) = k"
    by (rule unat_diff_Suc)+
  from Suc.prems(3) have ui: "unat i < 16" by simp
  then have i16: "i < 16"
    by (simp add: word_less_nat_alt)
  from ui have u1: "unat (i + 1) = unat i + 1"
    by (rule unat_Suc_word)
  obtain r1 s1 where c: "convert_block i x z s buf = (r1, s1)"
    by (cases "convert_block i x z s buf")
  with Suc.prems(1) i(1) have l: "blocks_loop (i + 1) r1 x z s1 buf = (None, s')"
    by (simp add: blocks_loop_step)
  have r1: "r1 = None"
  proof (rule ccontr)
    assume "r1 \<noteq> None"
    with l show False by (simp add: blocks_loop_stop)
  qed
  let ?fs = "map (\<lambda>j. face_line (vert_max (idx s)) buf (unat (block_offset buf i) + 4 + 16 * j))
      [0..<unat (buf ! unat (block_offset buf i))]"
  from convert_block_lines [OF c [unfolded r1] i16 assms(4,5,6)]
  have s1: "olines (out s1) = olines (out s) @ ?fs @ block_vertex_lines (unat x) (unat z) (unat i) buf"
    by (simp add: block_vertex_lines_def Let_def)
  from u1 Suc.prems(3) have "unat (i + 1) + k = 16" by simp
  from Suc.IH [OF l [unfolded r1] i(2) this] obtain F where
    F: "olines (out s') = olines (out s1) @
           concat (map (\<lambda>pos. F pos @ block_vertex_lines (unat x) (unat z) pos buf) [unat (i + 1)..<16])"
       "\<forall>pos. \<forall>l\<in>set (F pos). \<exists>vs. l = Face vs"
    by blast
  let ?F = "F(unat i := ?fs)"
  have "concat (map (\<lambda>pos. ?F pos @ block_vertex_lines (unat x) (unat z) pos buf) [unat i + 1..<16])
      = concat (map (\<lambda>pos. F pos @ block_vertex_lines (unat x) (unat z) pos buf) [unat i + 1..<16])"
    by (rule arg_cong [where f = concat], rule map_cong) auto
  moreover have "[unat i..<16] = unat i # [unat i + 1..<16]"
    using ui by (simp add: upt_conv_Cons)
  ultimately have "olines (out s') = olines (out s) @
           concat (map (\<lambda>pos. ?F pos @ block_vertex_lines (unat x) (unat z) pos buf) [unat i..<16])"
    using F(1) s1 u1 by simp
  moreover have "\<forall>pos. \<forall>l\<in>set (?F pos). \<exists>vs. l = Face vs"
    using F(2) by (auto simp: face_line_def)
  ultimately show ?case by blast
qed

lemma block_result_empty_out: "out (block_result x z s buf off 0 0) = out s"
  by (simp add: block_result_def)

lemma block_result_oerr:
  assumes "np + nv \<le> oroom (out s)"
  shows "oerr (out (block_result x z s buf off np nv)) = oerr (out s)"
  using assms by (simp add: block_result_def write_lines_out)

lemma minimal_segment_header_Suc: "minimal_segment vb ! Suc 0 = 0"
  by (simp add: minimal_segment_def nth_append)

lemma blocks_loop_empty:
  assumes "unat (16 - i) = k" "unat i + k = 16" "length buf = 36864" "\<not> oerr (out s)"
    and "\<forall>pos. i \<le> pos \<and> pos < 16 \<longrightarrow>
           block_offset buf pos \<le> BLOCK_OFFSET_MAX
           \<and> buf ! unat (block_offset buf pos) = 0
           \<and> buf ! (unat (block_offset buf pos) + 1) = 0"
  shows "\<exists>s'. blocks_loop i None x z s buf = (None, s') \<and> out s' = out s"
  using assms(1,2,4,5)
proof (induction k arbitrary: i s)
  case 0
  then have "i = 16" by (simp add: unat_0_iff)
  then show ?case by (simp add: blocks_loop_done)
next
  case (Suc k)
  from Suc.prems(1) have i: "i \<noteq> 16" "unat (16 - (i + 1)) = k"
    by (rule unat_diff_Suc)+
  from Suc.prems(2) have ui: "unat i < 16" by simp
  then have i16: "i < 16"
    by (simp add: word_less_nat_alt)
  from ui have u1: "unat (i + 1) = unat i + 1"
    by (rule unat_Suc_word)
  let ?off = "unat (block_offset buf i)"
  let ?s1 = "block_result (x + ucast (i mod 4) * 2048) (z + ucast (i div 4) * 2048) s buf ?off 0 0"
  from Suc.prems(4) i16 have e: "block_offset buf i \<le> BLOCK_OFFSET_MAX"
    "buf ! ?off = 0" "buf ! (?off + 1) = 0"
    by auto
  then have "?off \<le> 34560"
    by (simp add: BLOCK_OFFSET_MAX_eq word_le_nat_alt)
  with e Suc.prems(3) have c: "convert_block i x z s buf = (None, ?s1)"
    by (intro convert_block_run [OF i16 assms(3)]) simp_all
  have o: "out ?s1 = out s"
    by (rule block_result_empty_out)
  have "i \<le> i + 1"
    using u1 by (simp add: word_le_nat_alt)
  then have "\<forall>pos. i + 1 \<le> pos \<and> pos < 16 \<longrightarrow>
           block_offset buf pos \<le> BLOCK_OFFSET_MAX
           \<and> buf ! unat (block_offset buf pos) = 0
           \<and> buf ! (unat (block_offset buf pos) + 1) = 0"
    using Suc.prems(4) by (meson order_trans)
  moreover from u1 Suc.prems(2) have "unat (i + 1) + k = 16" by simp
  moreover from Suc.prems(3) o have "\<not> oerr (out ?s1)" by simp
  ultimately have "\<exists>s'. blocks_loop (i + 1) None x z ?s1 buf = (None, s') \<and> out s' = out ?s1"
    using i(2) by (intro Suc.IH)
  with i(1) c o show ?case
    by (simp add: blocks_loop_step)
qed

subsection \<open>The run on the test segment\<close>

lemma minimal_segment_empty_blocks:
  fixes pos :: uint
  assumes "1 \<le> pos \<and> pos < 16"
  shows "block_offset (minimal_segment vb) pos \<le> BLOCK_OFFSET_MAX
       \<and> minimal_segment vb ! unat (block_offset (minimal_segment vb) pos) = 0
       \<and> minimal_segment vb ! (unat (block_offset (minimal_segment vb) pos) + 1) = 0"
proof -
  from assms have "0 < pos" "pos < 16"
    by (simp_all add: word_less_nat_alt word_le_nat_alt)
  then have "block_offset (minimal_segment vb) pos = 0"
    by (rule minimal_segment_offset(2))
  then show ?thesis
    by (simp add: minimal_segment_header minimal_segment_header_Suc)
qed

lemma minimal_segment_blocks:
  assumes "length vb \<le> 36776" "4 \<le> oroom f" "\<not> oerr f"
  shows "\<exists>s'. blocks_loop 0 None x z (init_state f) (minimal_segment vb) = (None, s')
     \<and> out s' = out (block_result x z (init_state f) (minimal_segment vb) 68 1 3)"
proof -
  let ?buf = "minimal_segment vb"
  let ?s1 = "block_result x z (init_state f) ?buf 68 1 3"
  note len = length_minimal_segment [OF assms(1)]
  have c: "convert_block 0 x z (init_state f) ?buf = (None, ?s1)"
    using convert_block_run [of 0 ?buf 68 1 3 "init_state f" x z] assms(2,3)
    by (simp add: len minimal_segment_offset minimal_segment_header
        BLOCK_OFFSET_MAX_eq init_state_simps)
  have "\<not> oerr (out ?s1)"
    using assms(2,3) block_result_oerr [of 1 3 "init_state f" x z ?buf 68]
    by (simp add: init_state_simps)
  moreover have "unat (16 - 1 :: uint) = 15" "unat (1 :: uint) + 15 = 16"
    by simp_all
  ultimately have "\<exists>s'. blocks_loop 1 None x z ?s1 ?buf = (None, s') \<and> out s' = out ?s1"
    using len minimal_segment_empty_blocks [of _ vb]
    by (intro blocks_loop_empty) auto
  with c show ?thesis
    by (simp add: blocks_loop_step)
qed

lemma unat_segment_origin:
  fixes i :: uint
  shows "unat (ucast (i mod SEGMENTS_PER_ROW) * SEGMENT_BOUNDS) = unat i mod 32 * 8192"
    and "unat (ucast (i div SEGMENTS_PER_ROW) * SEGMENT_BOUNDS) = unat i div 32 * 8192"
proof -
  have m: "unat (ucast (i mod 32) :: ulong) = unat i mod 32"
    by (simp add: unat_ucast_up unat_mod_distrib)
  have d: "unat (ucast (i div 32) :: ulong) = unat i div 32"
    by (simp add: unat_ucast_up unat_div_distrib)
  have "unat i mod 32 < 32" by simp
  then show "unat (ucast (i mod SEGMENTS_PER_ROW) * SEGMENT_BOUNDS) = unat i mod 32 * 8192"
    by (simp add: SEGMENTS_PER_ROW_def SEGMENT_BOUNDS_def unat_mult_lem [THEN iffD1] m)
  have "unat i < 2 ^ 32"
    using unsigned_less [of i, where 'a = nat] by simp
  then have "unat i div 32 < 2 ^ 27" by simp
  then have "unat i div 32 * 8192 < 2 ^ 64" by simp
  then show "unat (ucast (i div SEGMENTS_PER_ROW) * SEGMENT_BOUNDS) = unat i div 32 * 8192"
    by (simp add: SEGMENTS_PER_ROW_def SEGMENT_BOUNDS_def unat_mult_lem [THEN iffD1] d)
qed

text \<open>
  C6. When segment \<open>i\<close> (at most 834) is converted without failure, what it writes is,
  block after block for the positions 0 to 15, the block's face lines followed by its
  vertex lines, and the vertex lines of the block at position \<open>pos\<close> are those of
  \<open>block_vertex_lines\<close> for the segment offset \<open>(i mod 32 * 8192, i div 32 * 8192)\<close>: they
  carry \<open>i mod 32 * 8192 + pos mod 4 * 2048\<close> on the first coordinate and
  \<open>i div 32 * 8192 + pos div 4 * 2048\<close> on the third, added to the folded raw values.
\<close>

theorem segment_and_block_world_offset:
  assumes "convert_segment i s inp = (None, s', inp')" "i \<le> SEGMENT_MAX"
  defines "buf \<equiv> take 36864 (drop (fpos inp) (content inp))"
  shows "\<exists>F. (\<forall>pos. \<forall>l\<in>set (F pos). \<exists>vs. l = Face vs)
     \<and> olines (out s') = olines (out s) @
          concat (map (\<lambda>pos. F pos @
              block_vertex_lines (unat i mod 32 * 8192) (unat i div 32 * 8192) pos buf) [0..<16])"
proof -
  let ?x = "ucast (i mod SEGMENTS_PER_ROW) * SEGMENT_BOUNDS :: ulong"
  let ?z = "ucast (i div SEGMENTS_PER_ROW) * SEGMENT_BOUNDS :: ulong"
  from assms(1) have f: "fread_segment inp = Some (buf, inp')"
    and l: "blocks_loop 0 None ?x ?z s buf = (None, s')"
    by (auto simp: convert_segment_def Let_def fread_segment_def buf_def SEGMENT_SIZE_def
        split: option.splits prod.splits if_splits)
  from f have len: "length buf = 36864"
    by (auto simp: fread_segment_def SEGMENT_SIZE_def split: if_splits)
  have x: "unat ?x = unat i mod 32 * 8192" and z: "unat ?z = unat i div 32 * 8192"
    by (rule unat_segment_origin)+
  have "unat i mod 32 * 8192 \<le> 31 * 8192"
    by simp
  then have bx: "unat ?x + 3 * 2048 + 65535 < 2 ^ 64"
    unfolding x by simp
  have "unat i < 2 ^ 32"
    using unsigned_less [of i, where 'a = nat] by simp
  then have "unat i div 32 * 8192 < 2 ^ 40" by simp
  then have bz: "unat ?z + 3 * 2048 + 65535 < 2 ^ 64"
    unfolding z by simp
  have "unat (16 - 0 :: uint) = 16" "unat (0 :: uint) + 16 = 16"
    by simp_all
  from blocks_loop_lines [OF l this len bx bz] show ?thesis
    unfolding x z by auto
qed


lemma fread_test_file:
  "fread_segment test_file = Some (minimal_segment test_vertices, test_file\<lparr>fpos := 36864\<rparr>)"
  by (simp add: fread_segment_def test_file_def SEGMENT_SIZE_def length_minimal_segment
      test_vertices_def)

lemma test_segment_run:
  "\<exists>s'. convert_segment i (init_state test_sink) test_file = (None, s', test_file\<lparr>fpos := 36864\<rparr>)
     \<and> out s' = out (block_result (ucast (i mod 32) * 8192) (ucast (i div 32) * 8192)
                       (init_state test_sink) (minimal_segment test_vertices) 68 1 3)"
proof -
  have "length test_vertices \<le> 36776" "4 \<le> oroom test_sink" "\<not> oerr test_sink"
    by (simp_all add: test_vertices_def test_sink_def)
  from minimal_segment_blocks [OF this, of "ucast (i mod 32) * 8192" "ucast (i div 32) * 8192"]
  show ?thesis
    by (auto simp: convert_segment_def fread_test_file SEGMENTS_PER_ROW_def SEGMENT_BOUNDS_def)
qed

lemma test_block_lines:
  assumes "unat x + 65535 < 2 ^ 64" "unat z + 65535 < 2 ^ 64"
  shows "olines (out (block_result x z (init_state test_sink) (minimal_segment test_vertices) 68 1 3))
     = [Face [1, 2, 3], Vertex (unat x + 100) 200 (unat z + 300),
        Vertex (unat x + 1) 2048 (unat z + 63487), Vertex (unat x + 1000) 2000 (unat z + 62536)]"
proof -
  have "1 + 3 \<le> oroom (out (init_state test_sink))"
    by (simp add: init_state_simps test_sink_def)
  from block_result_out [OF this, of x z "minimal_segment test_vertices" 68] show ?thesis
    by (simp add: vertex_line_nat [OF assms] face_line_nat init_state_simps test_sink_def
        minimal_segment_header test_vertices_raw16 fold_coord_def upt_conv_Cons)
qed

lemma test_block_vertex_lines:
  assumes "pos < 16"
  shows "block_vertex_lines X Z pos (minimal_segment test_vertices) =
     (if pos = 0 then [Vertex (X + 100) 200 (Z + 300), Vertex (X + 1) 2048 (Z + 63487),
                       Vertex (X + 1000) 2000 (Z + 62536)]
      else [])"
proof (cases "pos = 0")
  case True
  then show ?thesis
    by (simp add: block_vertex_lines_def minimal_segment_offset minimal_segment_header
        test_vertices_raw16 fold_coord_def upt_conv_Cons)
next
  case False
  with assms have "unat (of_nat pos :: uint) = pos"
    by (simp add: unat_of_nat)
  with assms False have "0 < (of_nat pos :: uint)" "(of_nat pos :: uint) < 16"
    by (simp_all add: word_less_nat_alt)
  then have "block_offset (minimal_segment test_vertices) (of_nat pos) = 0"
    by (rule minimal_segment_offset(2))
  with False show ?thesis
    by (simp add: block_vertex_lines_def minimal_segment_header_Suc)
qed

theorem segment_and_block_world_offset_witness:
  "fst (convert_segment 33 (init_state test_sink) test_file) = None
   \<and> (33 :: uint) \<le> SEGMENT_MAX
   \<and> olines (out (fst (snd (convert_segment 33 (init_state test_sink) test_file)))) =
       [Face [1, 2, 3], Vertex 8292 200 8492, Vertex 8193 2048 71679, Vertex 9192 2000 70728]
   \<and> (\<exists>F. olines (out (fst (snd (convert_segment 33 (init_state test_sink) test_file)))) =
          concat (map (\<lambda>pos. F pos @
              (if pos = 0 then [Vertex 8292 200 8492, Vertex 8193 2048 71679, Vertex 9192 2000 70728]
               else [])) [0..<16]))"
proof -
  let ?c = "convert_segment 33 (init_state test_sink) test_file"
  from test_segment_run [of 33] obtain s' where
    c: "?c = (None, s', test_file\<lparr>fpos := 36864\<rparr>)"
    and o: "out s' = out (block_result 8192 8192 (init_state test_sink)
                       (minimal_segment test_vertices) 68 1 3)"
    by auto
  have h: "(33 :: uint) \<le> SEGMENT_MAX"
    by (simp add: SEGMENT_MAX_def)
  have l: "olines (out s') =
       [Face [1, 2, 3], Vertex 8292 200 8492, Vertex 8193 2048 71679, Vertex 9192 2000 70728]"
    unfolding o by (subst test_block_lines) simp_all
  have b: "take 36864 (drop (fpos test_file) (content test_file)) = minimal_segment test_vertices"
    by (simp add: test_file_def length_minimal_segment test_vertices_def)
  from segment_and_block_world_offset [OF c h] obtain F where
    e1: "olines (out s') = olines (out (init_state test_sink)) @
          concat (map (\<lambda>pos. F pos @
              block_vertex_lines (unat (33 :: uint) mod 32 * 8192) (unat (33 :: uint) div 32 * 8192)
                pos (minimal_segment test_vertices)) [0..<16])"
    unfolding b by blast
  have i: "olines (out (init_state test_sink)) = []"
    by (simp add: init_state_simps test_sink_def)
  have e2: "map (\<lambda>pos. F pos @
              block_vertex_lines (unat (33 :: uint) mod 32 * 8192) (unat (33 :: uint) div 32 * 8192)
                pos (minimal_segment test_vertices)) [0..<16] =
      map (\<lambda>pos. F pos @
              (if pos = 0 then [Vertex 8292 200 8492, Vertex 8193 2048 71679, Vertex 9192 2000 70728]
               else [])) [0..<16]"
    by (rule map_cong) (simp_all add: test_block_vertex_lines)
  have e3: "olines (out s') = concat (map (\<lambda>pos. F pos @
              (if pos = 0 then [Vertex 8292 200 8492, Vertex 8193 2048 71679, Vertex 9192 2000 70728]
               else [])) [0..<16])"
    unfolding e1 e2 i append_Nil by (rule refl)
  have ex: "\<exists>F. olines (out s') = concat (map (\<lambda>pos. F pos @
              (if pos = 0 then [Vertex 8292 200 8492, Vertex 8193 2048 71679, Vertex 9192 2000 70728]
               else [])) [0..<16])"
    by (rule exI [where x = F]) (fact e3)
  show ?thesis
    unfolding c fst_conv snd_conv by (intro conjI refl h l ex)
qed

subsection \<open>The round trip of the minimal segment\<close>

lemma minimal_segment_raw16:
  assumes "k + 1 < length vb"
  shows "raw16 (minimal_segment vb) (88 + k) = raw16 vb k"
proof -
  have "88 + k + 1 = 88 + (k + 1)" by simp
  with assms show ?thesis
    by (simp only: raw16_def minimal_segment_vertices)
qed

lemma minimal_block_lines:
  assumes "length vb = 24" "4 \<le> oroom f"
  shows "olines (out (block_result 0 0 (init_state f) (minimal_segment vb) 68 1 3)) =
     olines f @
     [Face [1, 2, 3],
      Vertex (fold_coord (raw16 vb 0)) (fold_coord (raw16 vb 2)) (fold_coord (raw16 vb 4)),
      Vertex (fold_coord (raw16 vb 8)) (fold_coord (raw16 vb 10)) (fold_coord (raw16 vb 12)),
      Vertex (fold_coord (raw16 vb 16)) (fold_coord (raw16 vb 18)) (fold_coord (raw16 vb 20))]"
proof -
  let ?buf = "minimal_segment vb"
  have r: "raw16 ?buf 88 = raw16 vb 0" "raw16 ?buf 90 = raw16 vb 2" "raw16 ?buf 92 = raw16 vb 4"
    "raw16 ?buf 96 = raw16 vb 8" "raw16 ?buf 98 = raw16 vb 10" "raw16 ?buf 100 = raw16 vb 12"
    "raw16 ?buf 104 = raw16 vb 16" "raw16 ?buf 106 = raw16 vb 18" "raw16 ?buf 108 = raw16 vb 20"
    using assms(1) minimal_segment_raw16 [of 0 vb] minimal_segment_raw16 [of 2 vb]
      minimal_segment_raw16 [of 4 vb] minimal_segment_raw16 [of 8 vb]
      minimal_segment_raw16 [of 10 vb] minimal_segment_raw16 [of 12 vb]
      minimal_segment_raw16 [of 16 vb] minimal_segment_raw16 [of 18 vb]
      minimal_segment_raw16 [of 20 vb]
    by simp_all
  have "1 + 3 \<le> oroom (out (init_state f))"
    using assms(2) by (simp add: init_state_simps)
  from block_result_out [OF this, of 0 0 ?buf 68] show ?thesis
    by (simp add: vertex_line_nat face_line_nat init_state_simps minimal_segment_header r
        upt_conv_Cons)
qed

text \<open>
  C7. An input file that is the one segment \<open>minimal_segment vb\<close> (block 0 holds one
  triangle record with the local indices 0, 1, 2 and the three vertex records \<open>vb\<close>; the
  other blocks are empty), converted from segment 0 to segment 0 into an empty output
  with room for four lines, succeeds and writes exactly four lines: the face line
  \<open>f 1 2 3\<close> and three vertex lines that carry the folded coordinates of \<open>vb\<close>, in
  thousandths, printed with three decimals.
\<close>

theorem minimal_segment_round_trip:
  assumes "length vb = 24" "4 \<le> room"
  defines "inp \<equiv> \<lparr>content = minimal_segment vb, fpos = 0, seekable = True\<rparr>"
  defines "outp \<equiv> \<lparr>olines = [], oroom = room, oerr = False\<rparr>"
  defines "c \<equiv> \<lambda>k. fold_coord (raw16 vb k)"
  shows "\<exists>s' inp'. convert_to_obj 0 0 inp outp True = (None, s', inp')
     \<and> olines (out s') =
         [Face [1, 2, 3], Vertex (c 0) (c 2) (c 4), Vertex (c 8) (c 10) (c 12),
          Vertex (c 16) (c 18) (c 20)]
     \<and> map render_line (olines (out s')) =
         [''f 1 2 3'',
          ''v '' @ fixed3 (c 0) @ '' '' @ fixed3 (c 2) @ '' '' @ fixed3 (c 4),
          ''v '' @ fixed3 (c 8) @ '' '' @ fixed3 (c 10) @ '' '' @ fixed3 (c 12),
          ''v '' @ fixed3 (c 16) @ '' '' @ fixed3 (c 18) @ '' '' @ fixed3 (c 20)]"
proof -
  let ?buf = "minimal_segment vb"
  from assms(1) have len: "length ?buf = 36864"
    by (simp add: length_minimal_segment)
  have seek: "fseek_set inp 0 = Some inp"
    by (simp add: fseek_set_def inp_def)
  have rd: "fread_segment inp = Some (?buf, inp\<lparr>fpos := 36864\<rparr>)"
    using len by (simp add: fread_segment_def inp_def SEGMENT_SIZE_def)
  have "length vb \<le> 36776" "4 \<le> oroom outp" "\<not> oerr outp"
    using assms(1,2) by (simp_all add: outp_def)
  from minimal_segment_blocks [OF this, of 0 0] obtain s' where
    b: "blocks_loop 0 None 0 0 (init_state outp) ?buf = (None, s')"
    and o: "out s' = out (block_result 0 0 (init_state outp) ?buf 68 1 3)"
    by blast
  have seg: "convert_segment 0 (init_state outp) inp = (None, s', inp\<lparr>fpos := 36864\<rparr>)"
    by (simp add: convert_segment_def rd b SEGMENTS_PER_ROW_def)
  have "segments_loop 0 (0 + 1) 0 None (init_state outp) inp = (None, s', inp\<lparr>fpos := 36864\<rparr>)"
    by (simp add: segments_loop_step seg segments_loop_done)
  then have run: "convert_to_obj 0 0 inp outp True = (None, s', inp\<lparr>fpos := 36864\<rparr>)"
    by (simp add: convert_to_obj_def seek Let_def)
  have "4 \<le> oroom outp" "olines outp = []"
    using assms(2) by (simp_all add: outp_def)
  with minimal_block_lines [OF assms(1), of outp] have
    l: "olines (out s') =
         [Face [1, 2, 3], Vertex (c 0) (c 2) (c 4), Vertex (c 8) (c 10) (c 12),
          Vertex (c 16) (c 18) (c 20)]"
    unfolding o c_def by simp
  have d: "dec (Suc 0) = ''1''" "dec 2 = ''2''" "dec 3 = ''3''"
    by (simp_all add: dec.simps digit_char_def)
  have m: "map render_line (olines (out s')) =
         [''f 1 2 3'',
          ''v '' @ fixed3 (c 0) @ '' '' @ fixed3 (c 2) @ '' '' @ fixed3 (c 4),
          ''v '' @ fixed3 (c 8) @ '' '' @ fixed3 (c 10) @ '' '' @ fixed3 (c 12),
          ''v '' @ fixed3 (c 16) @ '' '' @ fixed3 (c 18) @ '' '' @ fixed3 (c 20)]"
    unfolding l by (simp add: d)
  show ?thesis
    by (intro exI [of _ s'] exI [of _ "inp\<lparr>fpos := 36864\<rparr>"] conjI run l m)
qed

lemma test_vertices_fixed3:
  "fixed3 (fold_coord (raw16 test_vertices 0)) = ''0.100''"
  "fixed3 (fold_coord (raw16 test_vertices 2)) = ''0.200''"
  "fixed3 (fold_coord (raw16 test_vertices 4)) = ''0.300''"
  "fixed3 (fold_coord (raw16 test_vertices 8)) = ''0.001''"
  "fixed3 (fold_coord (raw16 test_vertices 10)) = ''2.048''"
  "fixed3 (fold_coord (raw16 test_vertices 12)) = ''63.487''"
  "fixed3 (fold_coord (raw16 test_vertices 16)) = ''1.000''"
  "fixed3 (fold_coord (raw16 test_vertices 18)) = ''2.000''"
  "fixed3 (fold_coord (raw16 test_vertices 20)) = ''62.536''"
  by (simp_all add: fixed3_def fold_coord_def raw16_def test_vertices_def dec.simps digit_char_def)

theorem minimal_segment_round_trip_witness:
  "length test_vertices = 24 \<and> (4 :: nat) \<le> 1000
   \<and> fst (convert_to_obj 0 0 test_file test_sink True) = None
   \<and> map render_line (olines (out (fst (snd (convert_to_obj 0 0 test_file test_sink True))))) =
       [''f 1 2 3'', ''v 0.100 0.200 0.300'', ''v 0.001 2.048 63.487'', ''v 1.000 2.000 62.536'']"
proof -
  have n: "length test_vertices = 24"
    by (simp add: test_vertices_def)
  have r: "(4 :: nat) \<le> 1000"
    by simp
  from minimal_segment_round_trip [OF n r] obtain s' inp' where
    c: "convert_to_obj 0 0 test_file test_sink True = (None, s', inp')"
    and t: "map render_line (olines (out s')) =
       [''f 1 2 3'', ''v 0.100 0.200 0.300'', ''v 0.001 2.048 63.487'', ''v 1.000 2.000 62.536'']"
    unfolding test_vertices_fixed3 test_file_def [symmetric] test_sink_def [symmetric]
    by auto
  show ?thesis
    unfolding c fst_conv snd_conv by (intro conjI refl n r t)
qed

subsection \<open>The order of the lines of a block\<close>

lemma vertex_pos_vertices:
  assumes "\<forall>l\<in>set vs. is_vertex l" "0 < g" "g \<le> length vs"
  shows "vertex_pos vs g = Some (g - 1)"
  using assms
proof (induction vs arbitrary: g)
  case Nil
  then show ?case by simp
next
  case (Cons v vs)
  show ?case
  proof (cases "g = 1")
    case True
    with Cons.prems show ?thesis by simp
  next
    case False
    with Cons.prems have "0 < g - 1" "g - 1 \<le> length vs" by simp_all
    with Cons.prems(1) have "vertex_pos vs (g - 1) = Some (g - 1 - 1)"
      by (intro Cons.IH) simp_all
    with False Cons.prems show ?thesis by simp
  qed
qed

lemma vertex_pos_faces:
  assumes "\<forall>l\<in>set fs. \<not> is_vertex l"
  shows "vertex_pos (fs @ vs) g = map_option (\<lambda>p. length fs + p) (vertex_pos vs g)"
  using assms by (induction fs) (cases "vertex_pos vs g"; simp)+

lemma vertex_pos_append:
  assumes "vertex_count pre < g"
  shows "vertex_pos (pre @ ls) g =
     map_option (\<lambda>p. length pre + p) (vertex_pos ls (g - vertex_count pre))"
  using assms
proof (induction pre arbitrary: g)
  case Nil
  then show ?case by (simp add: vertex_count_def option.map_ident)
next
  case (Cons l pre)
  show ?case
  proof (cases "is_vertex l")
    case True
    with Cons.prems have g: "vertex_count pre < g - 1" "g \<noteq> 1"
      by (simp_all add: vertex_count_def)
    from Cons.IH [OF g(1)] True g(2) show ?thesis
      by (simp add: vertex_count_def option.map_comp comp_def)
  next
    case False
    with Cons.prems have "vertex_count pre < g"
      by (simp add: vertex_count_def)
    from Cons.IH [OF this] False show ?thesis
      by (simp add: vertex_count_def option.map_comp comp_def)
  qed
qed

lemma vertex_pos_block:
  assumes "\<forall>l\<in>set fs. \<not> is_vertex l" "\<forall>l\<in>set vs. is_vertex l"
    and "vertex_count pre < g" "g \<le> vertex_count pre + length vs"
  shows "vertex_pos (pre @ fs @ vs) g = Some (length pre + length fs + (g - vertex_count pre - 1))"
proof -
  from assms(3,4) have "0 < g - vertex_count pre" "g - vertex_count pre \<le> length vs"
    by simp_all
  with assms(2) have "vertex_pos vs (g - vertex_count pre) = Some (g - vertex_count pre - 1)"
    by (rule vertex_pos_vertices)
  then show ?thesis
    by (simp add: vertex_pos_append [OF assms(3)] vertex_pos_faces [OF assms(1)])
qed

lemma index_bytes_mem:
  assumes "k < np"
  shows "buf ! (q + 16 * k) \<in> set (index_bytes buf q np)"
    and "buf ! (q + 16 * k + 1) \<in> set (index_bytes buf q np)"
    and "buf ! (q + 16 * k + 2) \<in> set (index_bytes buf q np)"
  using assms by (auto simp: index_bytes_def intro!: bexI [of _ k])

text \<open>
  C10. In a block that is decoded without failure, the lines written are the block's
  face lines, one for each triangle record, followed by the block's vertex lines, one for
  each vertex record. If, when the block begins, \<open>vert_max\<close> is one more than the number of
  vertex lines already written (and below \<open>2 ^ 64 - 255\<close>), and every local index of the
  block's triangle records is less than the number of its vertex records, then every face
  line of the block names only vertex lines that are in the output after it.
\<close>

theorem faces_before_vertices:
  assumes "convert_block pos x z s buf = (None, s')" "pos < 16" "length buf = 36864"
  defines "off \<equiv> unat (block_offset buf pos)"
  defines "np \<equiv> unat (buf ! off)" and "nv \<equiv> unat (buf ! (off + 1))"
  shows "\<exists>fs vs. olines (out s') = olines (out s) @ fs @ vs
     \<and> length fs = np \<and> length vs = nv
     \<and> (\<forall>l\<in>set fs. \<exists>gs. l = Face gs) \<and> (\<forall>l\<in>set vs. is_vertex l)
     \<and> (vertex_count (olines (out s)) + 1 = unat (vert_max (idx s))
          \<and> unat (vert_max (idx s)) + 255 < 2 ^ 64
          \<and> (\<forall>b\<in>set (index_bytes buf (off + 4) np). unat b < nv)
        \<longrightarrow> (\<forall>k<np. refers_later (olines (out s')) (length (olines (out s)) + k)))"
proof -
  let ?pre = "olines (out s)"
  let ?prev = "vert_max (idx s)"
  let ?fs = "map (\<lambda>j. face_line ?prev buf (off + 4 + 16 * j)) [0..<np]"
  let ?vs = "map (\<lambda>j. vertex_line (x + ucast (pos mod 4) * 2048) (z + ucast (pos div 4) * 2048)
                 buf (off + 4 + 16 * np + 8 * j)) [0..<nv]"
  note cb = convert_block_None [OF assms(1,2,3), folded off_def np_def, folded nv_def]
  from block_result_out [OF cb(3)] have o: "olines (out s') = ?pre @ ?fs @ ?vs"
    unfolding cb(1) .
  have f: "\<forall>l\<in>set ?fs. \<exists>gs. l = Face gs"
    by (simp add: face_line_def)
  then have nf: "\<forall>l\<in>set ?fs. \<not> is_vertex l"
    by auto
  have v: "\<forall>l\<in>set ?vs. is_vertex l"
    by (simp add: vertex_line_def)
  have r: "refers_later (olines (out s')) (length ?pre + k)"
    if sync: "vertex_count ?pre + 1 = unat ?prev" and small: "unat ?prev + 255 < 2 ^ 64"
      and loc: "\<forall>b\<in>set (index_bytes buf (off + 4) np). unat b < nv" and k: "k < np" for k
  proof -
    have p: "vertex_pos (?pre @ ?fs @ ?vs) (unat ?prev + unat b) =
        Some (length ?pre + np + unat b)" if "b \<in> set (index_bytes buf (off + 4) np)" for b
    proof -
      from that loc have "unat b < nv" by simp
      with sync have "vertex_count ?pre < unat ?prev + unat b"
        "unat ?prev + unat b \<le> vertex_count ?pre + length ?vs"
        by simp_all
      from vertex_pos_block [OF nf v this] sync show ?thesis
        by simp
    qed
    define b0 where "b0 = buf ! (off + 4 + 16 * k)"
    define b1 where "b1 = buf ! (off + 4 + 16 * k + 1)"
    define b2 where "b2 = buf ! (off + 4 + 16 * k + 2)"
    from index_bytes_mem [OF k, of buf "off + 4"]
    have m: "b0 \<in> set (index_bytes buf (off + 4) np)" "b1 \<in> set (index_bytes buf (off + 4) np)"
      "b2 \<in> set (index_bytes buf (off + 4) np)"
      unfolding b0_def b1_def b2_def .
    from k have "(?pre @ ?fs @ ?vs) ! (length ?pre + k) = face_line ?prev buf (off + 4 + 16 * k)"
      by (simp add: nth_append)
    also have "\<dots> = Face [unat ?prev + unat b0, unat ?prev + unat b1, unat ?prev + unat b2]"
      unfolding b0_def b1_def b2_def using small by (rule face_line_nat)
    finally have "(?pre @ ?fs @ ?vs) ! (length ?pre + k) =
      Face [unat ?prev + unat b0, unat ?prev + unat b1, unat ?prev + unat b2]" .
    then have "refers_later (?pre @ ?fs @ ?vs) (length ?pre + k)"
      unfolding refers_later_def using k by (simp add: p [OF m(1)] p [OF m(2)] p [OF m(3)])
    then show ?thesis
      unfolding o .
  qed
  show ?thesis
  proof (rule exI [of _ ?fs], rule exI [of _ ?vs], intro conjI impI allI)
    show "olines (out s') = ?pre @ ?fs @ ?vs" by (rule o)
    show "\<forall>l\<in>set ?fs. \<exists>gs. l = Face gs" by (rule f)
    show "\<forall>l\<in>set ?vs. is_vertex l" by (rule v)
    show "length ?fs = np" by simp
    show "length ?vs = nv" by simp
    fix k
    assume "vertex_count ?pre + 1 = unat ?prev \<and> unat ?prev + 255 < 2 ^ 64
          \<and> (\<forall>b\<in>set (index_bytes buf (off + 4) np). unat b < nv)" "k < np"
    then show "refers_later (olines (out s')) (length ?pre + k)"
      by (intro r) simp_all
  qed
qed


theorem faces_before_vertices_witness:
  "convert_block 0 0 0 (init_state test_sink) (minimal_segment test_vertices) =
     (None, block_result 0 0 (init_state test_sink) (minimal_segment test_vertices) 68 1 3)
   \<and> (0 :: uint) < 16 \<and> length (minimal_segment test_vertices) = 36864
   \<and> vertex_count (olines (out (init_state test_sink))) + 1 =
       unat (vert_max (idx (init_state test_sink)))
   \<and> unat (vert_max (idx (init_state test_sink))) + 255 < 2 ^ 64
   \<and> index_bytes (minimal_segment test_vertices) 72 1 = [0, 1, 2]
   \<and> olines (out (block_result 0 0 (init_state test_sink) (minimal_segment test_vertices) 68 1 3)) =
       [Face [1, 2, 3], Vertex 100 200 300, Vertex 1 2048 63487, Vertex 1000 2000 62536]
   \<and> refers_later
       [Face [1, 2, 3], Vertex 100 200 300, Vertex 1 2048 63487, Vertex 1000 2000 62536] 0"
proof -
  let ?buf = "minimal_segment test_vertices"
  let ?s = "init_state test_sink"
  let ?s' = "block_result 0 0 ?s ?buf 68 1 3"
  let ?L = "[Face [1, 2, 3], Vertex 100 200 300, Vertex 1 2048 63487, Vertex 1000 2000 62536]"
  have h: "(0 :: uint) < 16" "length ?buf = 36864"
    by (simp_all add: length_minimal_segment test_vertices_def)
  have sync: "vertex_count (olines (out ?s)) + 1 = unat (vert_max (idx ?s))"
    by (simp add: init_state_simps test_sink_def vertex_count_def)
  have small: "unat (vert_max (idx ?s)) + 255 < 2 ^ 64"
    by (simp add: init_state_simps)
  have ib: "index_bytes ?buf 72 1 = [0, 1, 2]"
    by (simp add: index_bytes_def minimal_segment_header)
  have off: "unat (block_offset ?buf 0) = 68" "unat (?buf ! 68) = 1" "unat (?buf ! (68 + 1)) = 3"
    "68 + 4 = (72 :: nat)"
    by (simp_all add: minimal_segment_offset minimal_segment_header)
  have n: "length (olines (out ?s)) = 0"
    by (simp add: init_state_simps test_sink_def)
  have l: "olines (out ?s') = ?L"
    unfolding test_block_0_result by simp
  from faces_before_vertices [OF test_block_0 h] have
    "vertex_count (olines (out ?s)) + 1 = unat (vert_max (idx ?s))
       \<and> unat (vert_max (idx ?s)) + 255 < 2 ^ 64
       \<and> (\<forall>b\<in>set (index_bytes ?buf 72 1). unat b < 3)
     \<longrightarrow> (\<forall>k<1. refers_later (olines (out ?s')) (0 + k))"
    unfolding off n by (elim exE conjE)
  moreover have "\<forall>b\<in>set (index_bytes ?buf 72 1). unat b < 3"
    unfolding ib by simp
  ultimately have "\<forall>k<1. refers_later (olines (out ?s')) (0 + k)"
    using sync small by (elim impE) (intro conjI)
  then have "refers_later (olines (out ?s')) (0 + 0)"
    by (elim allE [of _ 0] impE) simp_all
  then have r: "refers_later ?L 0"
    unfolding l by simp
  show ?thesis
    by (intro conjI test_block_0 h sync small ib l r)
qed

subsection \<open>A face line that names a vertex line written before it\<close>

lemma length_two_block_segment: "length two_block_segment = 36864"
  by (simp add: two_block_segment_def)

lemma two_block_segment_header:
  "two_block_segment ! 0 = 0" "two_block_segment ! Suc 0 = 0"
  "two_block_segment ! 68 = 1" "two_block_segment ! 69 = 4"
  "two_block_segment ! 120 = 1" "two_block_segment ! 121 = 3"
  by (simp_all add: two_block_segment_def nth_append)

lemma two_block_segment_offset:
  "block_offset two_block_segment 0 = 68"
  "block_offset two_block_segment 1 = 120"
  "1 < pos \<Longrightarrow> pos < 16 \<Longrightarrow> block_offset two_block_segment pos = 0"
proof -
  show "block_offset two_block_segment 0 = 68"
    by (simp add: block_offset_def two_block_segment_def le32_def nth_append)
  show "block_offset two_block_segment 1 = 120"
    by (simp add: block_offset_def two_block_segment_def le32_def nth_append)
  assume "1 < pos" "pos < 16"
  then have p: "1 < unat pos" "unat pos < 16"
    by (simp_all add: word_less_nat_alt)
  then have "two_block_segment ! (4 + 4 * unat pos) = 0" "two_block_segment ! (5 + 4 * unat pos) = 0"
    "two_block_segment ! (6 + 4 * unat pos) = 0" "two_block_segment ! (7 + 4 * unat pos) = 0"
    by (simp_all add: two_block_segment_def nth_append nth_Cons')
  then show "block_offset two_block_segment pos = 0"
    by (simp add: block_offset_def le32_def)
qed

lemma two_block_0_result:
  "block_result 0 0 (init_state test_sink) two_block_segment 68 1 4 =
     \<lparr>idx = \<lparr>vert_max = 4, prev_vert_max = 1\<rparr>,
      out = \<lparr>olines = [Face [1, 2, 3], Vertex 0 0 0, Vertex 0 0 0, Vertex 0 0 0, Vertex 0 0 0],
             oroom = 995, oerr = False\<rparr>,
      hist = [\<lparr>vert_max = 1, prev_vert_max = 1\<rparr>, \<lparr>vert_max = 1, prev_vert_max = 1\<rparr>,
              \<lparr>vert_max = 2, prev_vert_max = 1\<rparr>, \<lparr>vert_max = 3, prev_vert_max = 1\<rparr>,
              \<lparr>vert_max = 4, prev_vert_max = 1\<rparr>]\<rparr>"
  by (simp add: block_result_def face_line_def vertex_line_def index_bytes_def polygon_index_def
      block_begin_def block_end_def write_line_def fput_line_def store_idx_def init_state_def
      test_sink_def limit_within_bounds_def le16_def BLOCK_BOUNDS_eq two_block_segment_def
      nth_append Let_def upt_conv_Cons)

lemma two_block_1_result:
  "out (block_result 2048 0
     \<lparr>idx = \<lparr>vert_max = 4, prev_vert_max = 1\<rparr>,
      out = \<lparr>olines = [Face [1, 2, 3], Vertex 0 0 0, Vertex 0 0 0, Vertex 0 0 0, Vertex 0 0 0],
             oroom = 995, oerr = False\<rparr>,
      hist = h\<rparr> two_block_segment 120 1 3) =
     \<lparr>olines = [Face [1, 2, 3], Vertex 0 0 0, Vertex 0 0 0, Vertex 0 0 0, Vertex 0 0 0,
                Face [4, 5, 6], Vertex 2048 0 0, Vertex 2048 0 0, Vertex 2048 0 0],
      oroom = 991, oerr = False\<rparr>"
  by (simp add: block_result_def face_line_def vertex_line_def index_bytes_def polygon_index_def
      block_begin_def block_end_def write_line_def fput_line_def store_idx_def
      limit_within_bounds_def le16_def BLOCK_BOUNDS_eq two_block_segment_def
      nth_append Let_def upt_conv_Cons)


lemma two_block_run:
  "\<exists>s'. convert_to_obj 0 0 two_block_file test_sink True =
          (None, s', two_block_file\<lparr>fpos := 36864\<rparr>)
     \<and> olines (out s') =
         [Face [1, 2, 3], Vertex 0 0 0, Vertex 0 0 0, Vertex 0 0 0, Vertex 0 0 0,
          Face [4, 5, 6], Vertex 2048 0 0, Vertex 2048 0 0, Vertex 2048 0 0]"
proof -
  let ?buf = "two_block_segment"
  let ?s0 = "init_state test_sink"
  let ?s1 = "block_result 0 0 ?s0 ?buf 68 1 4"
  let ?s2 = "block_result 2048 0 ?s1 ?buf 120 1 3"
  note len = length_two_block_segment
  have "convert_block 0 0 0 ?s0 ?buf =
      (None, block_result (0 + ucast ((0 :: uint) mod 4) * 2048)
               (0 + ucast ((0 :: uint) div 4) * 2048) ?s0 ?buf 68 1 4)"
  proof (rule convert_block_run)
    show "(0 :: uint) < 16" by simp
    show "length ?buf = 36864" by (rule len)
    show "block_offset ?buf 0 \<le> BLOCK_OFFSET_MAX"
      by (simp add: two_block_segment_offset(1) BLOCK_OFFSET_MAX_eq)
    show "68 = unat (block_offset ?buf 0)"
      by (simp add: two_block_segment_offset(1))
    show "1 = unat (?buf ! 68)" "4 = unat (?buf ! (68 + 1))"
      by (simp_all add: two_block_segment_header)
    show "68 + 4 + 16 * 1 + 8 * 4 \<le> (36864 :: nat)" by simp
    show "1 + 4 \<le> oroom (out ?s0)" "\<not> oerr (out ?s0)"
      by (simp_all add: init_state_simps test_sink_def)
  qed
  then have c0: "convert_block 0 0 0 ?s0 ?buf = (None, ?s1)"
    by simp
  have o1: "oroom (out ?s1) = 995" "\<not> oerr (out ?s1)"
    unfolding two_block_0_result by simp_all
  have "convert_block 1 0 0 ?s1 ?buf =
      (None, block_result (0 + ucast ((1 :: uint) mod 4) * 2048)
               (0 + ucast ((1 :: uint) div 4) * 2048) ?s1 ?buf 120 1 3)"
  proof (rule convert_block_run)
    show "(1 :: uint) < 16" by simp
    show "length ?buf = 36864" by (rule len)
    show "block_offset ?buf 1 \<le> BLOCK_OFFSET_MAX"
      by (simp add: two_block_segment_offset(2) BLOCK_OFFSET_MAX_eq)
    show "120 = unat (block_offset ?buf 1)"
      by (simp add: two_block_segment_offset(2))
    show "1 = unat (?buf ! 120)" "3 = unat (?buf ! (120 + 1))"
      by (simp_all add: two_block_segment_header)
    show "120 + 4 + 16 * 1 + 8 * 3 \<le> (36864 :: nat)" by simp
    show "1 + 3 \<le> oroom (out ?s1)" "\<not> oerr (out ?s1)"
      using o1 by simp_all
  qed
  then have c1: "convert_block 1 0 0 ?s1 ?buf = (None, ?s2)"
    by simp
  have o2: "out ?s2 =
     \<lparr>olines = [Face [1, 2, 3], Vertex 0 0 0, Vertex 0 0 0, Vertex 0 0 0, Vertex 0 0 0,
                Face [4, 5, 6], Vertex 2048 0 0, Vertex 2048 0 0, Vertex 2048 0 0],
      oroom = 991, oerr = False\<rparr>"
    unfolding two_block_0_result by (rule two_block_1_result)
  have e: "block_offset ?buf pos \<le> BLOCK_OFFSET_MAX
       \<and> ?buf ! unat (block_offset ?buf pos) = 0
       \<and> ?buf ! (unat (block_offset ?buf pos) + 1) = 0" if "2 \<le> pos \<and> pos < 16" for pos :: uint
  proof -
    from that have "1 < pos" "pos < 16"
      by (simp_all add: word_less_nat_alt word_le_nat_alt)
    then have "block_offset ?buf pos = 0"
      by (rule two_block_segment_offset(3))
    then show ?thesis
      by (simp add: two_block_segment_header)
  qed
  have "\<not> oerr (out ?s2)"
    unfolding o2 by simp
  moreover have "unat (16 - 2 :: uint) = 14" "unat (2 :: uint) + 14 = 16"
    by simp_all
  ultimately have "\<exists>s'. blocks_loop 2 None 0 0 ?s2 ?buf = (None, s') \<and> out s' = out ?s2"
    using len e by (intro blocks_loop_empty) auto
  then obtain s' where b2: "blocks_loop 2 None 0 0 ?s2 ?buf = (None, s')" and o: "out s' = out ?s2"
    by blast
  have "(1 :: uint) \<noteq> 16" "(1 :: uint) + 1 = 2" "(0 :: uint) \<noteq> 16" "(0 :: uint) + 1 = 1"
    by simp_all
  note n = this
  have b1: "blocks_loop 1 None 0 0 ?s1 ?buf = (None, s')"
    unfolding blocks_loop_step [OF n(1)] c1 prod.case n(2) by (rule b2)
  have b: "blocks_loop 0 None 0 0 ?s0 ?buf = (None, s')"
    unfolding blocks_loop_step [OF n(3)] c0 prod.case n(4) by (rule b1)
  have rd: "fread_segment two_block_file = Some (?buf, two_block_file\<lparr>fpos := 36864\<rparr>)"
    by (simp add: fread_segment_def two_block_file_def SEGMENT_SIZE_def len)
  have seg: "convert_segment 0 ?s0 two_block_file = (None, s', two_block_file\<lparr>fpos := 36864\<rparr>)"
    by (simp add: convert_segment_def rd b SEGMENTS_PER_ROW_def)
  have seek: "fseek_set two_block_file 0 = Some two_block_file"
    by (simp add: fseek_set_def two_block_file_def)
  have "segments_loop 0 (0 + 1) 0 None ?s0 two_block_file =
      (None, s', two_block_file\<lparr>fpos := 36864\<rparr>)"
    by (simp add: segments_loop_step seg segments_loop_done)
  then have run: "convert_to_obj 0 0 two_block_file test_sink True =
      (None, s', two_block_file\<lparr>fpos := 36864\<rparr>)"
    by (simp add: convert_to_obj_def seek Let_def)
  have "olines (out s') =
         [Face [1, 2, 3], Vertex 0 0 0, Vertex 0 0 0, Vertex 0 0 0, Vertex 0 0 0,
          Face [4, 5, 6], Vertex 2048 0 0, Vertex 2048 0 0, Vertex 2048 0 0]"
    unfolding o o2 by simp
  with run show ?thesis
    by (intro exI [of _ s'] conjI)
qed

text \<open>
  Without the condition on \<open>vert_max\<close> a face line can name a vertex line written before
  it. In the run on \<open>two_block_file\<close>, block 0 writes four vertex lines and leaves
  \<open>vert_max\<close> at 4, so the face line of block 1 is \<open>f 4 5 6\<close>: it is at position 5 of the
  output, and the fourth vertex line, which it names, is at position 4.
\<close>

theorem face_names_earlier_vertex_counterexample:
  "fst (convert_to_obj 0 0 two_block_file test_sink True) = None
   \<and> olines (out (fst (snd (convert_to_obj 0 0 two_block_file test_sink True)))) =
       [Face [1, 2, 3], Vertex 0 0 0, Vertex 0 0 0, Vertex 0 0 0, Vertex 0 0 0,
        Face [4, 5, 6], Vertex 2048 0 0, Vertex 2048 0 0, Vertex 2048 0 0]
   \<and> vertex_pos (olines (out (fst (snd (convert_to_obj 0 0 two_block_file test_sink True))))) 4
       = Some 4
   \<and> \<not> refers_later
         (olines (out (fst (snd (convert_to_obj 0 0 two_block_file test_sink True))))) 5"
proof -
  from two_block_run obtain s' where
    c: "convert_to_obj 0 0 two_block_file test_sink True =
          (None, s', two_block_file\<lparr>fpos := 36864\<rparr>)"
    and l: "olines (out s') =
         [Face [1, 2, 3], Vertex 0 0 0, Vertex 0 0 0, Vertex 0 0 0, Vertex 0 0 0,
          Face [4, 5, 6], Vertex 2048 0 0, Vertex 2048 0 0, Vertex 2048 0 0]"
    by blast
  have p: "vertex_pos (olines (out s')) 4 = Some 4"
    unfolding l by simp
  have r: "\<not> refers_later (olines (out s')) 5"
    unfolding l by (simp add: refers_later_def)
  show ?thesis
    unfolding c fst_conv snd_conv by (intro conjI refl l p r)
qed

subsection \<open>A rejected block offset ends the run\<close>

lemma blocks_loop_rejected:
  assumes "pos < 16" "length buf = 36864" "34560 < table_entry buf (unat pos)"
  shows "convert_block pos x z s buf = (Some InvalidBlockOffset, s)"
    and "blocks_loop pos None x z s buf = (Some InvalidBlockOffset, s)"
proof -
  from assms(3) have "BLOCK_OFFSET_MAX < block_offset buf pos"
    by (simp add: block_offset_table_entry)
  then show c: "convert_block pos x z s buf = (Some InvalidBlockOffset, s)"
    by (rule convert_block_rejected(1) [OF assms(1,2)])
  from assms(1) have "pos \<noteq> 16" by auto
  then show "blocks_loop pos None x z s buf = (Some InvalidBlockOffset, s)"
    by (simp add: blocks_loop_step c blocks_loop_stop)
qed

lemma blocks_loop_fails:
  fixes pos :: uint
  assumes "pos < 16" "length buf = 36864" "34560 < table_entry buf (unat pos)"
    and "unat i + k = unat pos"
  shows "fst (blocks_loop i None x z s0 buf) \<noteq> None"
  using assms(4)
proof (induction k arbitrary: i s0)
  case 0
  then have "i = pos"
    by (simp add: word_unat_eq_iff)
  then show ?case
    by (simp add: blocks_loop_rejected(2) [OF assms(1,2,3)])
next
  case (Suc k)
  from assms(1) have "unat pos < 16"
    by (simp add: word_less_nat_alt)
  with Suc.prems have ui: "unat i < 16" by simp
  then have i: "i \<noteq> 16" by auto
  from ui have u1: "unat (i + 1) = unat i + 1"
    by (rule unat_Suc_word)
  obtain r1 s1 where c: "convert_block i x z s0 buf = (r1, s1)"
    by (cases "convert_block i x z s0 buf")
  then have l: "blocks_loop i None x z s0 buf = blocks_loop (i + 1) r1 x z s1 buf"
    by (simp add: blocks_loop_step [OF i])
  show ?case
  proof (cases r1)
    case None
    from u1 Suc.prems have "unat (i + 1) + k = unat pos" by simp
    from Suc.IH [OF this, of s1] show ?thesis
      unfolding l None .
  next
    case (Some e)
    then show ?thesis
      unfolding l by (simp add: blocks_loop_stop)
  qed
qed

lemma blocks_loop_before:
  assumes "n \<le> 16" "blocks_before n x z s0 buf = Some s"
  shows "blocks_loop 0 None x z s0 buf = blocks_loop (of_nat n) None x z s buf"
  using assms
proof (induction n arbitrary: s)
  case 0
  then show ?case by simp
next
  case (Suc n)
  from Suc.prems(2) obtain s1 where
    b: "blocks_before n x z s0 buf = Some s1"
    and c: "convert_block (of_nat n) x z s1 buf = (None, s)"
    by (auto split: option.splits prod.splits)
  from Suc.prems(1) have n: "n < 16" "n \<le> 16" by simp_all
  then have "unat (of_nat n :: uint) = n"
    by (simp add: unat_of_nat)
  with n(1) have i: "(of_nat n :: uint) \<noteq> 16" by auto
  have "blocks_loop 0 None x z s0 buf = blocks_loop (of_nat n) None x z s1 buf"
    using n(2) b by (rule Suc.IH)
  also have "\<dots> = blocks_loop (of_nat n + 1) None x z s buf"
    by (simp add: blocks_loop_step [OF i] c)
  finally show ?case
    by (simp add: add.commute)
qed

lemma convert_segment_read:
  assumes "fread_segment inp = Some (buf, inp')"
  shows "convert_segment j st inp =
     (case blocks_loop 0 None (ucast (j mod SEGMENTS_PER_ROW) * SEGMENT_BOUNDS)
             (ucast (j div SEGMENTS_PER_ROW) * SEGMENT_BOUNDS) st buf of
        (res, s') \<Rightarrow> (res, s', inp'))"
  by (simp add: convert_segment_def assms Let_def)

lemma segments_loop_failing:
  assumes "i \<noteq> endi" "fst (convert_segment j st inp) \<noteq> None"
  shows "segments_loop i endi j None st inp = convert_segment j st inp"
proof -
  obtain r1 st1 inp1 where c: "convert_segment j st inp = (r1, st1, inp1)"
    by (cases "convert_segment j st inp")
  with assms(2) have "r1 \<noteq> None" by simp
  then show ?thesis
    by (simp add: segments_loop_step [OF assms(1)] c segments_loop_stop)
qed

lemma fread_segment_Some:
  "fread_segment inp = Some (buf, inp') \<longleftrightarrow>
     fpos inp + 36864 \<le> length (content inp)
     \<and> buf = take 36864 (drop (fpos inp) (content inp))
     \<and> inp' = inp\<lparr>fpos := fpos inp + 36864\<rparr>"
  by (auto simp: fread_segment_def SEGMENT_SIZE_def)

lemma convert_segment_advances:
  assumes "convert_segment j st inp = (None, st', inp')"
  shows "content inp' = content inp" "fpos inp' = fpos inp + 36864"
proof -
  from assms obtain buf where "fread_segment inp = Some (buf, inp')"
    by (auto simp: convert_segment_def Let_def split: option.splits prod.splits)
  then have "inp' = inp\<lparr>fpos := fpos inp + 36864\<rparr>"
    by (simp add: fread_segment_Some)
  then show "content inp' = content inp" "fpos inp' = fpos inp + 36864"
    by simp_all
qed

lemma convert_segment_fails:
  fixes pos :: uint
  assumes "pos < 16" "length buf = 36864" "34560 < table_entry buf (unat pos)"
    and "take 36864 (drop (fpos inp) (content inp)) = buf"
  shows "fst (convert_segment j st inp) \<noteq> None"
proof (cases "fread_segment inp")
  case None
  then show ?thesis by (simp add: convert_segment_def)
next
  case (Some a)
  then obtain b inp' where f: "fread_segment inp = Some (b, inp')"
    by (cases a) simp
  with assms(4) have f: "fread_segment inp = Some (buf, inp')"
    by (simp add: fread_segment_Some)
  have "unat (0 :: uint) + unat pos = unat pos" by simp
  from blocks_loop_fails [OF assms(1,2,3) this] show ?thesis
    by (simp add: convert_segment_read [OF f] split_beta)
qed

lemma unat_Suc_below:
  fixes i endi :: uint
  assumes "unat i < unat endi"
  shows "unat (i + 1) = unat i + 1"
proof -
  have "unat endi < 2 ^ 32"
    using unsigned_less [of endi, where 'a = nat] by simp
  with assms have "unat i + unat (1 :: uint) < 2 ^ LENGTH(32)" by simp
  then show ?thesis
    by (simp add: unat_add_lem [THEN iffD1])
qed

lemma segments_loop_fails:
  fixes pos :: uint
  assumes "pos < 16" "length buf = 36864" "34560 < table_entry buf (unat pos)"
    and "unat i + k < unat endi"
    and "take 36864 (drop (fpos inp + k * 36864) (content inp)) = buf"
  shows "fst (segments_loop i endi j None st inp) \<noteq> None"
  using assms(4,5)
proof (induction k arbitrary: i j st inp)
  case 0
  then have "i \<noteq> endi" by auto
  moreover from 0 have "fst (convert_segment j st inp) \<noteq> None"
    by (intro convert_segment_fails [OF assms(1,2,3)]) simp
  ultimately show ?case
    by (simp add: segments_loop_failing)
next
  case (Suc k)
  from Suc.prems(1) have i: "i \<noteq> endi" "unat i < unat endi" by auto
  from i(2) have u1: "unat (i + 1) = unat i + 1"
    by (rule unat_Suc_below)
  obtain r1 st1 inp1 where c: "convert_segment j st inp = (r1, st1, inp1)"
    by (cases "convert_segment j st inp")
  then have l: "segments_loop i endi j None st inp = segments_loop (i + 1) endi (j + 1) r1 st1 inp1"
    by (simp add: segments_loop_step [OF i(1)])
  show ?case
  proof (cases r1)
    case None
    with c have a: "content inp1 = content inp" "fpos inp1 = fpos inp + 36864"
      by (auto dest: convert_segment_advances)
    from u1 Suc.prems(1) have "unat (i + 1) + k < unat endi" by simp
    moreover have eq: "fpos inp1 + k * 36864 = fpos inp + Suc k * 36864"
      using a(2) by simp
    from Suc.prems(2) have
      "take 36864 (drop (fpos inp1 + k * 36864) (content inp1)) = buf"
      unfolding eq a(1) .
    ultimately have "fst (segments_loop (i + 1) endi (j + 1) None st1 inp1) \<noteq> None"
      by (rule Suc.IH)
    then show ?thesis
      unfolding l None .
  next
    case (Some e)
    then show ?thesis
      unfolding l by (simp add: segments_loop_stop)
  qed
qed

lemma sint_ulong_small:
  fixes w :: ulong
  assumes "unat w < 2 ^ 63"
  shows "sint w = int (unat w)"
proof -
  have u: "0 \<le> uint w" by simp
  from assms have "int (unat w) < int (2 ^ 63)"
    by (rule of_nat_less_iff [THEN iffD2])
  then have lt: "uint w < 2 ^ 63"
    by simp
  have "- (2 ^ 63) \<le> uint w"
    by (rule order_trans [OF _ u]) simp
  then have "signed_take_bit 63 (uint w) = uint w"
    using lt by (rule signed_take_bit_int_eq_self)
  then show ?thesis
    by (simp add: sint_uint)
qed

lemma fseek_segment:
  assumes "start \<le> SEGMENT_MAX"
  shows "fseek_set inp (ucast start * SEGMENT_SIZE) =
     (if seekable inp then Some (inp\<lparr>fpos := unat start * 36864\<rparr>) else None)"
proof -
  from assms have s: "unat start \<le> 834"
    by (simp add: SEGMENT_MAX_def word_le_nat_alt)
  then have "unat start * 36864 \<le> 834 * 36864"
    by (rule mult_le_mono1)
  then have b: "unat start * 36864 < 2 ^ 63" by simp
  have "unat (ucast start :: ulong) = unat start"
    by (simp add: unat_ucast_up)
  with b have m: "unat (ucast start * 36864 :: ulong) = unat start * 36864"
    by (simp add: unat_mult_lem [THEN iffD1])
  with b have "unat (ucast start * 36864 :: ulong) < 2 ^ 63"
    by simp
  then have e: "sint (ucast start * 36864 :: ulong) = int (unat (ucast start * 36864 :: ulong))"
    by (rule sint_ulong_small)
  have "nat (sint (ucast start * 36864 :: ulong)) = unat (ucast start * 36864 :: ulong)"
    by (simp only: e nat_int)
  then have n: "nat (sint (ucast start * 36864 :: ulong)) = unat start * 36864"
    "0 \<le> sint (ucast start * 36864 :: ulong)"
    by (simp_all only: m e of_nat_0_le_iff)
  show ?thesis
    by (simp only: fseek_set_def SEGMENT_SIZE_def n) simp
qed

lemma convert_to_obj_fails:
  fixes pos :: uint
  assumes "pos < 16" "length buf = 36864" "34560 < table_entry buf (unat pos)"
    and "start \<le> m" "m \<le> endi" "endi \<le> SEGMENT_MAX"
    and "take 36864 (drop (unat m * 36864) (content inp)) = buf"
  shows "fst (convert_to_obj start endi inp outp mem) \<noteq> None"
proof (cases "seekable inp \<and> mem")
  case False
  from assms(4,5,6) have "start \<le> SEGMENT_MAX" by simp
  with False show ?thesis
    by (auto simp: convert_to_obj_def fseek_segment)
next
  case True
  from assms(4,5,6) have st: "start \<le> SEGMENT_MAX" by simp
  let ?inp = "inp\<lparr>fpos := unat start * 36864\<rparr>"
  let ?j = "if start div SEGMENTS_PER_ROW \<noteq> endi div SEGMENTS_PER_ROW
            then start mod SEGMENTS_PER_ROW else 0"
  from True st have r: "convert_to_obj start endi inp outp mem =
      segments_loop start (endi + 1) ?j None (init_state outp) ?inp"
    by (simp add: convert_to_obj_def fseek_segment Let_def)
  from assms(6) have "unat endi \<le> 834"
    by (simp add: SEGMENT_MAX_def word_le_nat_alt)
  then have e: "unat (endi + 1) = unat endi + 1"
    by (simp add: unat_add_lem [THEN iffD1])
  from assms(4,5) have le: "unat start \<le> unat m" "unat m \<le> unat endi"
    by (simp_all add: word_le_nat_alt)
  define k where "k = unat m - unat start"
  with le have k: "unat start + k = unat m" by simp
  with le e have "unat start + k < unat (endi + 1)" by simp
  moreover have "fpos ?inp + k * 36864 = unat m * 36864"
    using k by (simp add: add_mult_distrib [symmetric])
  with assms(7) have "take 36864 (drop (fpos ?inp + k * 36864) (content ?inp)) = buf"
    by simp
  ultimately have "fst (segments_loop start (endi + 1) ?j None (init_state outp) ?inp) \<noteq> None"
    by (rule segments_loop_fails [OF assms(1,2,3)])
  then show ?thesis
    unfolding r .
qed


lemma convert_to_obj_loop:
  assumes "start \<le> SEGMENT_MAX" "seekable inp"
  shows "convert_to_obj start endi inp outp True =
     segments_loop start (endi + 1)
       (if start div SEGMENTS_PER_ROW \<noteq> endi div SEGMENTS_PER_ROW
        then start mod SEGMENTS_PER_ROW else 0)
       None (init_state outp) (inp\<lparr>fpos := unat start * 36864\<rparr>)"
  using assms by (simp add: convert_to_obj_def fseek_segment Let_def)

text \<open>
  C3. For a block position below 16 of a segment of 36864 bytes, decoding the block fails
  with \<open>InvalidBlockOffset\<close> exactly when the little-endian table entry at byte
  \<open>4 + 4 * pos\<close> exceeds \<open>SEGMENT_SIZE - BLOCK_SIZE\<close>, the bound of lines 20--21, which is
  34560 bytes (\<open>BLOCK_SIZE\<close> is 2304). Such a failure aborts the run and nothing more is
  written: the rejected block leaves the state as it is; the loop over the blocks ends
  there, with this failure when it reaches the block in the state \<open>s\<close> and with some
  failure in any case; the conversion of a segment that holds the block fails likewise,
  and the loop over the segments returns what that conversion returns; and every run over
  a range of segments up to 834 that includes a segment holding such a block fails.
\<close>

theorem invalid_block_offset:
  fixes pos :: uint
  assumes "pos < 16" "length buf = 36864"
  defines "rejected \<equiv> unat (SEGMENT_SIZE - BLOCK_SIZE) < table_entry buf (unat pos)"
  shows "(fst (convert_block pos x z s buf) = Some InvalidBlockOffset \<longleftrightarrow> rejected)
     \<and> BLOCK_OFFSET_MAX = SEGMENT_SIZE - BLOCK_SIZE
     \<and> unat (SEGMENT_SIZE - BLOCK_SIZE) = 34560
     \<and> unat SEGMENT_SIZE = 36864 \<and> unat BLOCK_SIZE = 2304
     \<and> (rejected \<longrightarrow>
          convert_block pos x z s buf = (Some InvalidBlockOffset, s)
        \<and> blocks_loop pos None x z s buf = (Some InvalidBlockOffset, s)
        \<and> (\<forall>s0. fst (blocks_loop 0 None x z s0 buf) \<noteq> None)
        \<and> (\<forall>s0. blocks_before (unat pos) x z s0 buf = Some s \<longrightarrow>
                  blocks_loop 0 None x z s0 buf = (Some InvalidBlockOffset, s))
        \<and> (\<forall>j st inp inp'. fread_segment inp = Some (buf, inp') \<longrightarrow>
               fst (convert_segment j st inp) \<noteq> None
             \<and> (\<forall>i endi. i \<noteq> endi \<longrightarrow>
                   segments_loop i endi j None st inp = convert_segment j st inp)
             \<and> (blocks_before (unat pos) (ucast (j mod SEGMENTS_PER_ROW) * SEGMENT_BOUNDS)
                    (ucast (j div SEGMENTS_PER_ROW) * SEGMENT_BOUNDS) st buf = Some s \<longrightarrow>
                  convert_segment j st inp = (Some InvalidBlockOffset, s, inp')))
        \<and> (\<forall>start m endi inp outp mem.
               start \<le> m \<and> m \<le> endi \<and> endi \<le> SEGMENT_MAX
               \<and> take 36864 (drop (unat m * 36864) (content inp)) = buf \<longrightarrow>
               fst (convert_to_obj start endi inp outp mem) \<noteq> None)
        \<and> (\<forall>start endi j inp outp inp'.
               start \<le> endi \<and> endi \<le> SEGMENT_MAX \<and> seekable inp
               \<and> j = (if start div SEGMENTS_PER_ROW \<noteq> endi div SEGMENTS_PER_ROW
                       then start mod SEGMENTS_PER_ROW else 0)
               \<and> fread_segment (inp\<lparr>fpos := unat start * 36864\<rparr>) = Some (buf, inp')
               \<and> blocks_before (unat pos) (ucast (j mod SEGMENTS_PER_ROW) * SEGMENT_BOUNDS)
                    (ucast (j div SEGMENTS_PER_ROW) * SEGMENT_BOUNDS) (init_state outp) buf = Some s
               \<longrightarrow> convert_to_obj start endi inp outp True = (Some InvalidBlockOffset, s, inp')))"
proof -
  have c2: "BLOCK_OFFSET_MAX = SEGMENT_SIZE - BLOCK_SIZE"
    by (rule BLOCK_OFFSET_MAX_def)
  have c3: "unat (SEGMENT_SIZE - BLOCK_SIZE) = 34560"
    unfolding c2 [symmetric] by (simp add: BLOCK_OFFSET_MAX_eq)
  have c4: "unat SEGMENT_SIZE = 36864"
    by (simp add: SEGMENT_SIZE_def)
  have c5: "unat BLOCK_SIZE = 2304"
    by (simp add: BLOCK_SIZE_eq)
  have R: "rejected \<longleftrightarrow> 34560 < table_entry buf (unat pos)"
    unfolding rejected_def c3 ..
  note rej = convert_block_rejected [OF assms(1,2), of x z s, unfolded block_offset_table_entry]
  have c1: "fst (convert_block pos x z s buf) = Some InvalidBlockOffset \<longleftrightarrow> rejected"
    unfolding R using rej by (cases "34560 < table_entry buf (unat pos)") simp_all
  have c6: "rejected \<longrightarrow>
          convert_block pos x z s buf = (Some InvalidBlockOffset, s)
        \<and> blocks_loop pos None x z s buf = (Some InvalidBlockOffset, s)
        \<and> (\<forall>s0. fst (blocks_loop 0 None x z s0 buf) \<noteq> None)
        \<and> (\<forall>s0. blocks_before (unat pos) x z s0 buf = Some s \<longrightarrow>
                  blocks_loop 0 None x z s0 buf = (Some InvalidBlockOffset, s))
        \<and> (\<forall>j st inp inp'. fread_segment inp = Some (buf, inp') \<longrightarrow>
               fst (convert_segment j st inp) \<noteq> None
             \<and> (\<forall>i endi. i \<noteq> endi \<longrightarrow>
                   segments_loop i endi j None st inp = convert_segment j st inp)
             \<and> (blocks_before (unat pos) (ucast (j mod SEGMENTS_PER_ROW) * SEGMENT_BOUNDS)
                    (ucast (j div SEGMENTS_PER_ROW) * SEGMENT_BOUNDS) st buf = Some s \<longrightarrow>
                  convert_segment j st inp = (Some InvalidBlockOffset, s, inp')))
        \<and> (\<forall>start m endi inp outp mem.
               start \<le> m \<and> m \<le> endi \<and> endi \<le> SEGMENT_MAX
               \<and> take 36864 (drop (unat m * 36864) (content inp)) = buf \<longrightarrow>
               fst (convert_to_obj start endi inp outp mem) \<noteq> None)
        \<and> (\<forall>start endi j inp outp inp'.
               start \<le> endi \<and> endi \<le> SEGMENT_MAX \<and> seekable inp
               \<and> j = (if start div SEGMENTS_PER_ROW \<noteq> endi div SEGMENTS_PER_ROW
                       then start mod SEGMENTS_PER_ROW else 0)
               \<and> fread_segment (inp\<lparr>fpos := unat start * 36864\<rparr>) = Some (buf, inp')
               \<and> blocks_before (unat pos) (ucast (j mod SEGMENTS_PER_ROW) * SEGMENT_BOUNDS)
                    (ucast (j div SEGMENTS_PER_ROW) * SEGMENT_BOUNDS) (init_state outp) buf = Some s
               \<longrightarrow> convert_to_obj start endi inp outp True = (Some InvalidBlockOffset, s, inp'))"
  proof (rule impI)
    assume rejected
    then have r: "34560 < table_entry buf (unat pos)"
      by (simp only: R)
    note a = assms(1,2) r
    from assms(1) have p16: "unat pos \<le> 16"
      by (simp add: word_less_nat_alt)
    have l0: "fst (blocks_loop 0 None x' z' s0 buf) \<noteq> None" for x' z' s0
    proof -
      have "unat (0 :: uint) + unat pos = unat pos" by simp
      from blocks_loop_fails [OF a this] show ?thesis .
    qed
    have lb: "blocks_loop 0 None x' z' s0 buf = (Some InvalidBlockOffset, s)"
      if "blocks_before (unat pos) x' z' s0 buf = Some s" for x' z' s0
      using blocks_loop_before [OF p16 that] blocks_loop_rejected(2) [OF a, of x' z' s]
      by simp
    have seg: "fst (convert_segment j st inp) \<noteq> None
             \<and> (\<forall>i endi. i \<noteq> endi \<longrightarrow>
                   segments_loop i endi j None st inp = convert_segment j st inp)
             \<and> (blocks_before (unat pos) (ucast (j mod SEGMENTS_PER_ROW) * SEGMENT_BOUNDS)
                    (ucast (j div SEGMENTS_PER_ROW) * SEGMENT_BOUNDS) st buf = Some s \<longrightarrow>
                  convert_segment j st inp = (Some InvalidBlockOffset, s, inp'))"
      if f: "fread_segment inp = Some (buf, inp')" for j st inp inp'
    proof -
      have f1: "fst (convert_segment j st inp) \<noteq> None"
        using l0 by (simp add: convert_segment_read [OF f] split_beta)
      have f2: "\<forall>i endi. i \<noteq> endi \<longrightarrow>
                   segments_loop i endi j None st inp = convert_segment j st inp"
        using f1 by (simp add: segments_loop_failing)
      have f3: "blocks_before (unat pos) (ucast (j mod SEGMENTS_PER_ROW) * SEGMENT_BOUNDS)
                    (ucast (j div SEGMENTS_PER_ROW) * SEGMENT_BOUNDS) st buf = Some s \<longrightarrow>
                  convert_segment j st inp = (Some InvalidBlockOffset, s, inp')"
        by (simp add: convert_segment_read [OF f] lb)
      from f1 f2 f3 show ?thesis
        by (intro conjI)
    qed
    have run: "fst (convert_to_obj start endi inp outp mem) \<noteq> None"
      if "start \<le> m \<and> m \<le> endi \<and> endi \<le> SEGMENT_MAX
               \<and> take 36864 (drop (unat m * 36864) (content inp)) = buf"
      for start m endi inp outp mem
      using that by (intro convert_to_obj_fails [OF a, of start m endi inp]) simp_all
    have run0: "convert_to_obj start endi inp outp True = (Some InvalidBlockOffset, s, inp')"
      if h: "start \<le> endi \<and> endi \<le> SEGMENT_MAX \<and> seekable inp
               \<and> j = (if start div SEGMENTS_PER_ROW \<noteq> endi div SEGMENTS_PER_ROW
                       then start mod SEGMENTS_PER_ROW else 0)
               \<and> fread_segment (inp\<lparr>fpos := unat start * 36864\<rparr>) = Some (buf, inp')
               \<and> blocks_before (unat pos) (ucast (j mod SEGMENTS_PER_ROW) * SEGMENT_BOUNDS)
                    (ucast (j div SEGMENTS_PER_ROW) * SEGMENT_BOUNDS) (init_state outp) buf = Some s"
      for start endi j inp outp inp'
    proof -
      from h have h1: "start \<le> endi" by (elim conjE)
      from h have h2: "endi \<le> SEGMENT_MAX" by (elim conjE)
      from h have h3: "seekable inp" by (elim conjE)
      from h have j: "j = (if start div SEGMENTS_PER_ROW \<noteq> endi div SEGMENTS_PER_ROW
                       then start mod SEGMENTS_PER_ROW else 0)"
        by (elim conjE)
      from h have f: "fread_segment (inp\<lparr>fpos := unat start * 36864\<rparr>) = Some (buf, inp')"
        by (elim conjE)
      from h have b: "blocks_before (unat pos) (ucast (j mod SEGMENTS_PER_ROW) * SEGMENT_BOUNDS)
                    (ucast (j div SEGMENTS_PER_ROW) * SEGMENT_BOUNDS) (init_state outp) buf = Some s"
        by (elim conjE)
      from h1 h2 have st: "start \<le> SEGMENT_MAX" by (rule order_trans)
      from h1 h2 have "unat endi \<le> 834" "unat start \<le> unat endi"
        by (simp_all add: SEGMENT_MAX_def word_le_nat_alt)
      then have "unat (endi + 1) = unat endi + 1" "unat start \<le> unat endi"
        by (simp_all add: unat_add_lem [THEN iffD1])
      then have ne: "start \<noteq> endi + 1" by auto
      from seg [OF f, of j "init_state outp"] b ne have
        "segments_loop start (endi + 1) j None (init_state outp) (inp\<lparr>fpos := unat start * 36864\<rparr>)
           = (Some InvalidBlockOffset, s, inp')"
        by simp
      then show ?thesis
        unfolding convert_to_obj_loop [OF st h3] j .
    qed
    show "convert_block pos x z s buf = (Some InvalidBlockOffset, s)
        \<and> blocks_loop pos None x z s buf = (Some InvalidBlockOffset, s)
        \<and> (\<forall>s0. fst (blocks_loop 0 None x z s0 buf) \<noteq> None)
        \<and> (\<forall>s0. blocks_before (unat pos) x z s0 buf = Some s \<longrightarrow>
                  blocks_loop 0 None x z s0 buf = (Some InvalidBlockOffset, s))
        \<and> (\<forall>j st inp inp'. fread_segment inp = Some (buf, inp') \<longrightarrow>
               fst (convert_segment j st inp) \<noteq> None
             \<and> (\<forall>i endi. i \<noteq> endi \<longrightarrow>
                   segments_loop i endi j None st inp = convert_segment j st inp)
             \<and> (blocks_before (unat pos) (ucast (j mod SEGMENTS_PER_ROW) * SEGMENT_BOUNDS)
                    (ucast (j div SEGMENTS_PER_ROW) * SEGMENT_BOUNDS) st buf = Some s \<longrightarrow>
                  convert_segment j st inp = (Some InvalidBlockOffset, s, inp')))
        \<and> (\<forall>start m endi inp outp mem.
               start \<le> m \<and> m \<le> endi \<and> endi \<le> SEGMENT_MAX
               \<and> take 36864 (drop (unat m * 36864) (content inp)) = buf \<longrightarrow>
               fst (convert_to_obj start endi inp outp mem) \<noteq> None)
        \<and> (\<forall>start endi j inp outp inp'.
               start \<le> endi \<and> endi \<le> SEGMENT_MAX \<and> seekable inp
               \<and> j = (if start div SEGMENTS_PER_ROW \<noteq> endi div SEGMENTS_PER_ROW
                       then start mod SEGMENTS_PER_ROW else 0)
               \<and> fread_segment (inp\<lparr>fpos := unat start * 36864\<rparr>) = Some (buf, inp')
               \<and> blocks_before (unat pos) (ucast (j mod SEGMENTS_PER_ROW) * SEGMENT_BOUNDS)
                    (ucast (j div SEGMENTS_PER_ROW) * SEGMENT_BOUNDS) (init_state outp) buf = Some s
               \<longrightarrow> convert_to_obj start endi inp outp True = (Some InvalidBlockOffset, s, inp'))"
    proof (intro conjI allI impI)
      show "convert_block pos x z s buf = (Some InvalidBlockOffset, s)"
        by (rule blocks_loop_rejected(1) [OF a])
      show "blocks_loop pos None x z s buf = (Some InvalidBlockOffset, s)"
        by (rule blocks_loop_rejected(2) [OF a])
      show "fst (blocks_loop 0 None x z s0 buf) \<noteq> None" for s0
        by (rule l0)
      show "blocks_loop 0 None x z s0 buf = (Some InvalidBlockOffset, s)"
        if "blocks_before (unat pos) x z s0 buf = Some s" for s0
        using that by (rule lb)
      show "fst (convert_segment j st inp) \<noteq> None"
        if "fread_segment inp = Some (buf, inp')" for j st inp inp'
        using seg [OF that] by (rule conjunct1)
      show "segments_loop i endi j None st inp = convert_segment j st inp"
        if "fread_segment inp = Some (buf, inp')" "i \<noteq> endi" for j st inp inp' i endi
        using seg [OF that(1), of j st] that(2) by simp
      show "convert_segment j st inp = (Some InvalidBlockOffset, s, inp')"
        if "fread_segment inp = Some (buf, inp')"
          "blocks_before (unat pos) (ucast (j mod SEGMENTS_PER_ROW) * SEGMENT_BOUNDS)
                    (ucast (j div SEGMENTS_PER_ROW) * SEGMENT_BOUNDS) st buf = Some s"
        for j st inp inp'
        using seg [OF that(1), of j st] that(2) by simp
      show "fst (convert_to_obj start endi inp outp mem) \<noteq> None"
        if "start \<le> m \<and> m \<le> endi \<and> endi \<le> SEGMENT_MAX
               \<and> take 36864 (drop (unat m * 36864) (content inp)) = buf"
        for start m endi inp outp mem
        using that by (rule run)
      show "convert_to_obj start endi inp outp True = (Some InvalidBlockOffset, s, inp')"
        if "start \<le> endi \<and> endi \<le> SEGMENT_MAX \<and> seekable inp
               \<and> j = (if start div SEGMENTS_PER_ROW \<noteq> endi div SEGMENTS_PER_ROW
                       then start mod SEGMENTS_PER_ROW else 0)
               \<and> fread_segment (inp\<lparr>fpos := unat start * 36864\<rparr>) = Some (buf, inp')
               \<and> blocks_before (unat pos) (ucast (j mod SEGMENTS_PER_ROW) * SEGMENT_BOUNDS)
                    (ucast (j div SEGMENTS_PER_ROW) * SEGMENT_BOUNDS) (init_state outp) buf = Some s"
        for start endi j inp outp inp'
        using that by (rule run0)
    qed
  qed
  show ?thesis
    by (rule conjI c1 c2 c3 c4 c5 c6)+
qed


lemma length_rejected_segment: "length rejected_segment = 36864"
  by (simp add: rejected_segment_def length_minimal_segment test_vertices_def)

lemma rejected_segment_block_0:
  "block_offset rejected_segment 0 = 68" "rejected_segment ! 68 = 1" "rejected_segment ! 69 = 3"
  by (simp_all add: block_offset_def rejected_segment_def minimal_segment_def le32_def nth_append)

lemma rejected_block_0_result:
  "block_result 0 0 (init_state test_sink) rejected_segment 68 1 3 =
     \<lparr>idx = \<lparr>vert_max = 4, prev_vert_max = 1\<rparr>,
      out = \<lparr>olines = [Face [1, 2, 3], Vertex 100 200 300, Vertex 1 2048 63487,
                       Vertex 1000 2000 62536],
             oroom = 996, oerr = False\<rparr>,
      hist = [\<lparr>vert_max = 1, prev_vert_max = 1\<rparr>, \<lparr>vert_max = 1, prev_vert_max = 1\<rparr>,
              \<lparr>vert_max = 2, prev_vert_max = 1\<rparr>, \<lparr>vert_max = 3, prev_vert_max = 1\<rparr>,
              \<lparr>vert_max = 4, prev_vert_max = 1\<rparr>]\<rparr>"
  by (simp add: block_result_def face_line_def vertex_line_def index_bytes_def polygon_index_def
      block_begin_def block_end_def write_line_def fput_line_def store_idx_def init_state_def
      test_sink_def limit_within_bounds_def le16_def BLOCK_BOUNDS_eq rejected_segment_def
      minimal_segment_def test_vertices_def nth_append Let_def upt_conv_Cons)

lemma rejected_block_0:
  "convert_block 0 0 0 (init_state test_sink) rejected_segment =
     (None, block_result 0 0 (init_state test_sink) rejected_segment 68 1 3)"
proof -
  have "convert_block 0 0 0 (init_state test_sink) rejected_segment =
      (None, block_result (0 + ucast ((0 :: uint) mod 4) * 2048)
               (0 + ucast ((0 :: uint) div 4) * 2048) (init_state test_sink) rejected_segment 68 1 3)"
  proof (rule convert_block_run)
    show "(0 :: uint) < 16" by simp
    show "length rejected_segment = 36864" by (rule length_rejected_segment)
    show "block_offset rejected_segment 0 \<le> BLOCK_OFFSET_MAX"
      by (simp add: rejected_segment_block_0(1) BLOCK_OFFSET_MAX_eq)
    show "68 = unat (block_offset rejected_segment 0)"
      by (simp add: rejected_segment_block_0(1))
    show "1 = unat (rejected_segment ! 68)" "3 = unat (rejected_segment ! (68 + 1))"
      by (simp_all add: rejected_segment_block_0)
    show "68 + 4 + 16 * 1 + 8 * 3 \<le> (36864 :: nat)" by simp
    show "1 + 3 \<le> oroom (out (init_state test_sink))" "\<not> oerr (out (init_state test_sink))"
      by (simp_all add: init_state_simps test_sink_def)
  qed
  then show ?thesis by simp
qed

theorem invalid_block_offset_witness:
  "(1 :: uint) < 16 \<and> length rejected_segment = 36864
   \<and> table_entry rejected_segment 1 = 34561
   \<and> unat (SEGMENT_SIZE - BLOCK_SIZE) < table_entry rejected_segment (unat (1 :: uint))
   \<and> fread_segment rejected_file = Some (rejected_segment, rejected_file\<lparr>fpos := 36864\<rparr>)
   \<and> blocks_before 1 0 0 (init_state test_sink) rejected_segment =
       Some (block_result 0 0 (init_state test_sink) rejected_segment 68 1 3)
   \<and> olines (out (block_result 0 0 (init_state test_sink) rejected_segment 68 1 3)) =
       [Face [1, 2, 3], Vertex 100 200 300, Vertex 1 2048 63487, Vertex 1000 2000 62536]
   \<and> convert_block 1 0 0 (block_result 0 0 (init_state test_sink) rejected_segment 68 1 3)
         rejected_segment =
       (Some InvalidBlockOffset, block_result 0 0 (init_state test_sink) rejected_segment 68 1 3)
   \<and> convert_segment 0 (init_state test_sink) rejected_file =
       (Some InvalidBlockOffset, block_result 0 0 (init_state test_sink) rejected_segment 68 1 3,
        rejected_file\<lparr>fpos := 36864\<rparr>)
   \<and> convert_to_obj 0 0 rejected_file test_sink True =
       (Some InvalidBlockOffset, block_result 0 0 (init_state test_sink) rejected_segment 68 1 3,
        rejected_file\<lparr>fpos := 36864\<rparr>)"
proof -
  let ?buf = "rejected_segment"
  let ?s0 = "init_state test_sink"
  let ?s1 = "block_result 0 0 ?s0 ?buf 68 1 3"
  let ?inp' = "rejected_file\<lparr>fpos := 36864\<rparr>"
  have h: "(1 :: uint) < 16" "length ?buf = 36864"
    by (simp_all add: length_rejected_segment)
  have e: "table_entry ?buf 1 = 34561"
    by (simp add: table_entry_def rejected_segment_def minimal_segment_def nth_append)
  have u: "unat (1 :: uint) = 1" by simp
  note t = invalid_block_offset [OF h, of 0 0 ?s1]
  have c3: "unat (SEGMENT_SIZE - BLOCK_SIZE) = 34560"
    by (rule t [THEN conjunct2, THEN conjunct2, THEN conjunct1])
  have r: "unat (SEGMENT_SIZE - BLOCK_SIZE) < table_entry ?buf (unat (1 :: uint))"
    unfolding c3 u e by simp
  note X = t [THEN conjunct2, THEN conjunct2, THEN conjunct2, THEN conjunct2, THEN conjunct2,
      THEN mp, OF r]
  have f: "fread_segment rejected_file = Some (?buf, ?inp')"
    by (simp add: fread_segment_def rejected_file_def SEGMENT_SIZE_def length_rejected_segment)
  have f0: "rejected_file\<lparr>fpos := unat (0 :: uint) * 36864\<rparr> = rejected_file"
    by (simp add: rejected_file_def)
  have b: "blocks_before 1 0 0 ?s0 ?buf = Some ?s1"
    using rejected_block_0 by simp
  have l: "olines (out ?s1) =
       [Face [1, 2, 3], Vertex 100 200 300, Vertex 1 2048 63487, Vertex 1000 2000 62536]"
    unfolding rejected_block_0_result by simp
  have cb: "convert_block 1 0 0 ?s1 ?buf = (Some InvalidBlockOffset, ?s1)"
    by (rule X [THEN conjunct1])
  have xz: "ucast ((0 :: uint) mod SEGMENTS_PER_ROW) * SEGMENT_BOUNDS = 0"
    "ucast ((0 :: uint) div SEGMENTS_PER_ROW) * SEGMENT_BOUNDS = 0"
    by simp_all
  note S = X [THEN conjunct2, THEN conjunct2, THEN conjunct2, THEN conjunct2, THEN conjunct1,
      THEN spec [of _ "0 :: uint"], THEN spec [of _ ?s0], THEN spec [of _ rejected_file],
      THEN spec [of _ ?inp'], THEN mp, OF f]
  have cs: "convert_segment 0 ?s0 rejected_file = (Some InvalidBlockOffset, ?s1, ?inp')"
    using S [THEN conjunct2, THEN conjunct2] b unfolding xz u by (rule mp)
  note R = X [THEN conjunct2, THEN conjunct2, THEN conjunct2, THEN conjunct2, THEN conjunct2,
      THEN conjunct2, THEN spec [of _ "0 :: uint"], THEN spec [of _ "0 :: uint"],
      THEN spec [of _ "0 :: uint"], THEN spec [of _ rejected_file], THEN spec [of _ test_sink],
      THEN spec [of _ ?inp']]
  have "(0 :: uint) \<le> 0 \<and> (0 :: uint) \<le> SEGMENT_MAX \<and> seekable rejected_file
      \<and> (0 :: uint) = (if (0 :: uint) div SEGMENTS_PER_ROW \<noteq> 0 div SEGMENTS_PER_ROW
                       then 0 mod SEGMENTS_PER_ROW else 0)
      \<and> fread_segment (rejected_file\<lparr>fpos := unat (0 :: uint) * 36864\<rparr>) = Some (?buf, ?inp')
      \<and> blocks_before (unat (1 :: uint)) (ucast ((0 :: uint) mod SEGMENTS_PER_ROW) * SEGMENT_BOUNDS)
           (ucast ((0 :: uint) div SEGMENTS_PER_ROW) * SEGMENT_BOUNDS) ?s0 ?buf = Some ?s1"
    unfolding f0 xz u using f b by (simp add: rejected_file_def)
  with R have run: "convert_to_obj 0 0 rejected_file test_sink True =
      (Some InvalidBlockOffset, ?s1, ?inp')"
    by (rule mp)
  show ?thesis
    by (intro conjI h e r f b l cb cs run)
qed

end
